theory Spec2Isabelle
  imports Complex_Main "HOL-Library.AList"
begin

section \<open>Data model (types.ts, constants.ts)\<close>

text \<open>
  A \<open>Node\<close> carries an identifier and the failure flag; the layout attributes of the
  rendering layer play no role in routing.  A \<open>Link\<close> stores its endpoints either as
  identifiers or as node objects; every reader normalises them to the identifier
  (\<open>typeof l.source === 'string' ? l.source : l.source.id\<close>), so the model keeps the
  identifier.  Weights are JavaScript numbers holding integers (the link editor accepts
  \<open>parseInt\<close> results greater than zero), modelled as \<open>int\<close>.
\<close>

record node =
  node_id :: string
  node_active :: bool

record link =
  link_id :: string
  source :: string
  target :: string
  weight :: int
  link_active :: bool

record graph_data =
  nodes :: "node list"
  links :: "link list"

datatype algorithm_type = DIJKSTRA | BELLMAN_FORD

definition INFINITY :: int where
  "INFINITY = 9999"

text \<open>
  \<open>Record<string, number>\<close> and \<open>Record<string, string | null>\<close>: objects used as
  dictionaries.  They are association lists in insertion order; \<open>AList.update\<close> overwrites
  an existing key in place and appends a new one, as a property assignment does.  A read
  of a missing key is \<open>undefined\<close> in the source and \<open>None\<close> here.
\<close>

type_synonym dist_map = "(string \<times> int) list"
type_synonym prev_map = "(string \<times> string option) list"

text \<open>
  The \<open>description\<close> of a step is a template string; the model keeps the template and
  the values spliced into it:
  \<^item> \<open>DijkstraStartInactive s\<close>: "Start node s is inactive/failed. Cannot route."
  \<^item> \<open>DijkstraInitialized s\<close>: "Initialized distances. Start node s is 0."
  \<^item> \<open>DijkstraSelected c m\<close>: "Selected node c with minimum distance m."
  \<^item> \<open>DijkstraRelaxing c n alt\<close>: "Relaxing edge c-n: Updated distance to n to alt."
  \<^item> \<open>DijkstraComplete\<close>: "Dijkstra Algorithm complete."
  \<^item> \<open>BFStartInactive s\<close>: "Start node s is inactive."
  \<^item> \<open>BFInitialized\<close>: "Initialized distances."
  \<^item> \<open>BFRelaxing k from to d\<close>: "Iteration k: Relaxing from->to. New dist: d."
  \<^item> \<open>BFConverged k\<close>: "Iteration k: No changes. Converged."
  \<^item> \<open>BFComplete\<close>: "Bellman-Ford Algorithm complete."
\<close>

datatype description =
    DijkstraStartInactive string
  | DijkstraInitialized string
  | DijkstraSelected string int
  | DijkstraRelaxing string string int
  | DijkstraComplete
  | BFStartInactive string
  | BFInitialized
  | BFRelaxing nat string string int
  | BFConverged nat
  | BFComplete

record simulation_step =
  stepIndex :: nat
  description :: description
  distances :: dist_map
  previous :: prev_map
  activeNodes :: "string list"
  activeLinks :: "string list"
  visitedNodes :: "string list"

section \<open>Algorithm engine (utils/algorithms.ts)\<close>

subsection \<open>Shared initialisation\<close>

text \<open>A JavaScript \<open>Set\<close> of strings: a duplicate-free list in insertion order.\<close>

definition set_add :: "string \<Rightarrow> string list \<Rightarrow> string list" where
  "set_add x xs = (if x \<in> set xs then xs else xs @ [x])"

definition filter_active_nodes :: "graph_data \<Rightarrow> node list" where
  "filter_active_nodes data = filter node_active (nodes data)"

definition filter_active_links :: "graph_data \<Rightarrow> link list" where
  "filter_active_links data = filter link_active (links data)"

definition activeNodeIds :: "graph_data \<Rightarrow> string list" where
  "activeNodeIds data = foldl (\<lambda>s n. set_add (node_id n) s) [] (filter_active_nodes data)"

definition init_distances :: "node list \<Rightarrow> string \<Rightarrow> dist_map" where
  "init_distances ns startNodeId =
     foldl (\<lambda>ds n. AList.update (node_id n)
                      (if node_id n = startNodeId \<and> node_active n then 0 else INFINITY) ds) [] ns"

definition init_previous :: "node list \<Rightarrow> prev_map" where
  "init_previous ns = foldl (\<lambda>pv n. AList.update (node_id n) None pv) [] ns"

definition init_unvisited :: "node list \<Rightarrow> string list" where
  "init_unvisited ns = foldl (\<lambda>u n. if node_active n then set_add (node_id n) u else u) [] ns"

subsection \<open>Dijkstra\<close>

text \<open>
  The scan for the unvisited node of smallest tentative distance.  \<open>distances[id] <
  minDist\<close> is false when the entry is missing.
\<close>

definition select_min :: "dist_map \<Rightarrow> string list \<Rightarrow> string option \<times> int" where
  "select_min ds unvisited =
     foldl (\<lambda>(currentId, minDist) i.
              case map_of ds i of
                Some d \<Rightarrow> if d < minDist then (Some i, d) else (currentId, minDist)
              | None \<Rightarrow> (currentId, minDist))
           (None, INFINITY) unvisited"

definition touches :: "string \<Rightarrow> link \<Rightarrow> bool" where
  "touches currentId l = (source l = currentId \<or> target l = currentId)"

text \<open>
  The body of the loop over the links touching the selected node, for one link.
  \<open>alt < currentDist\<close> is false when either entry is missing (the sum is then
  \<open>NaN\<close>).  The state is both dictionaries and the steps pushed so far.
\<close>

type_synonym relax_state = "dist_map \<times> prev_map \<times> simulation_step list"

definition other_end :: "string \<Rightarrow> link \<Rightarrow> string" where
  "other_end currentId l = (if source l = currentId then target l else source l)"

definition relax_neighbor ::
  "string list \<Rightarrow> string \<Rightarrow> string list \<Rightarrow> link \<Rightarrow> relax_state \<Rightarrow> relax_state"
where
  "relax_neighbor act currentId visited l st =
     (case st of (ds, pv, steps) \<Rightarrow>
        (let neighborId = other_end currentId l in
         if neighborId \<notin> set act then st
         else if neighborId \<in> set visited then st
         else
           (case (map_of ds currentId, map_of ds neighborId) of
              (Some dc, Some currentDist) \<Rightarrow>
                (let alt = dc + weight l in
                 if alt < currentDist then
                   (let ds' = AList.update neighborId alt ds;
                        pv' = AList.update neighborId (Some currentId) pv
                    in (ds', pv',
                        steps @ [\<lparr>stepIndex = length steps,
                                  description = DijkstraRelaxing currentId neighborId alt,
                                  distances = ds', previous = pv',
                                  activeNodes = [currentId, neighborId],
                                  activeLinks = [link_id l],
                                  visitedNodes = visited\<rparr>]))
                 else st)
            | _ \<Rightarrow> st)))"

definition relax_neighbors ::
  "string list \<Rightarrow> string \<Rightarrow> string list \<Rightarrow> link list \<Rightarrow> relax_state \<Rightarrow> relax_state"
where
  "relax_neighbors act currentId visited neighbors st =
     foldl (\<lambda>s l. relax_neighbor act currentId visited l s) st neighbors"

text \<open>
  One round of the \<open>while (unvisited.size > 0)\<close> loop once a node has been selected.
  The state is the unvisited set, the visited set, both dictionaries and the steps.
\<close>

type_synonym dijkstra_state =
  "string list \<times> string list \<times> dist_map \<times> prev_map \<times> simulation_step list"

definition dijkstra_body ::
  "string list \<Rightarrow> link list \<Rightarrow> string \<Rightarrow> int \<Rightarrow> dijkstra_state \<Rightarrow> dijkstra_state"
where
  "dijkstra_body act ls currentId minDist st =
     (case st of (unvisited, visited, ds, pv, steps) \<Rightarrow>
        (let unvisited' = removeAll currentId unvisited;
             visited' = set_add currentId visited;
             steps' = steps @ [\<lparr>stepIndex = length steps,
                                description = DijkstraSelected currentId minDist,
                                distances = ds, previous = pv,
                                activeNodes = [currentId], activeLinks = [],
                                visitedNodes = visited'\<rparr>];
             neighbors = filter (touches currentId) ls
         in (case relax_neighbors act currentId visited' neighbors (ds, pv, steps') of
               (ds', pv', steps'') \<Rightarrow> (unvisited', visited', ds', pv', steps''))))"

lemma select_min_foldl_mem:
  "foldl (\<lambda>(currentId, minDist) i.
              case map_of ds i of
                Some d \<Rightarrow> if d < minDist then (Some i, d) else (currentId, minDist)
              | None \<Rightarrow> (currentId, minDist)) (c0, m0) us = (Some c, m)
   \<Longrightarrow> c \<in> set us \<or> c0 = Some c"
proof (induction us arbitrary: c0 m0)
  case Nil
  then show ?case by simp
next
  case (Cons u us)
  then show ?case
    by (fastforce split: option.splits if_splits)
qed

lemma select_min_mem: "select_min ds us = (Some c, m) \<Longrightarrow> c \<in> set us"
  unfolding select_min_def using select_min_foldl_mem [of ds None INFINITY us c m] by simp

lemma dijkstra_body_unvisited:
  "fst (dijkstra_body act ls c m (unvisited, rest)) = removeAll c unvisited"
  by (cases rest) (simp add: dijkstra_body_def Let_def split: prod.splits)

function dijkstra_loop :: "string list \<Rightarrow> link list \<Rightarrow> dijkstra_state \<Rightarrow> dijkstra_state" where
  "dijkstra_loop act ls (unvisited, visited, ds, pv, steps) =
     (if unvisited = [] then (unvisited, visited, ds, pv, steps)
      else
        (case select_min ds unvisited of
           (None, minDist) \<Rightarrow> (unvisited, visited, ds, pv, steps)
         | (Some currentId, minDist) \<Rightarrow>
             if map_of ds currentId = Some INFINITY then (unvisited, visited, ds, pv, steps)
             else dijkstra_loop act ls
                    (dijkstra_body act ls currentId minDist (unvisited, visited, ds, pv, steps))))"
  by pat_completeness auto
termination
  apply (relation "measure (\<lambda>(act, ls, st). length (fst st))")
   apply simp
  apply (auto dest!: select_min_mem [OF sym] simp: dijkstra_body_unvisited length_removeAll_less)
  done

declare dijkstra_loop.simps [simp del]

definition runDijkstra :: "graph_data \<Rightarrow> string \<Rightarrow> simulation_step list" where
  "runDijkstra data startNodeId =
     (let ls = filter_active_links data;
          act = activeNodeIds data;
          ds = init_distances (nodes data) startNodeId;
          pv = init_previous (nodes data);
          unvisited = init_unvisited (nodes data)
      in if startNodeId \<notin> set act then
           [\<lparr>stepIndex = 0, description = DijkstraStartInactive startNodeId,
             distances = ds, previous = pv,
             activeNodes = [], activeLinks = [], visitedNodes = []\<rparr>]
         else
           (let steps = [\<lparr>stepIndex = 0, description = DijkstraInitialized startNodeId,
                           distances = ds, previous = pv,
                           activeNodes = [startNodeId], activeLinks = [], visitedNodes = []\<rparr>];
                (unvisited', visited', ds', pv', steps') =
                   dijkstra_loop act ls (unvisited, [], ds, pv, steps)
            in steps' @ [\<lparr>stepIndex = length steps', description = DijkstraComplete,
                           distances = ds', previous = pv',
                           activeNodes = [], activeLinks = [], visitedNodes = visited'\<rparr>]))"

subsection \<open>Bellman-Ford\<close>

text \<open>
  One directed relaxation attempt \<open>from \<rightarrow> to\<close> over a link, in iteration \<open>i\<close>
  (0-based; the description prints \<open>i + 1\<close>).  The state is both dictionaries, the
  steps pushed so far and the flag \<open>somethingChanged\<close>.  A missing entry makes the
  comparison false.
\<close>

type_synonym bf_state = "dist_map \<times> prev_map \<times> simulation_step list \<times> bool"

definition relax_edge :: "nat \<Rightarrow> link \<Rightarrow> string \<Rightarrow> string \<Rightarrow> bf_state \<Rightarrow> bf_state" where
  "relax_edge i l from to st =
     (case st of (ds, pv, steps, somethingChanged) \<Rightarrow>
        (case (map_of ds from, map_of ds to) of
           (Some df, Some dt) \<Rightarrow>
             if df \<noteq> INFINITY \<and> df + weight l < dt then
               (let ds' = AList.update to (df + weight l) ds;
                    pv' = AList.update to (Some from) pv
                in (ds', pv',
                    steps @ [\<lparr>stepIndex = length steps,
                              description = BFRelaxing (i + 1) from to (df + weight l),
                              distances = ds', previous = pv',
                              activeNodes = [from, to],
                              activeLinks = [link_id l],
                              visitedNodes = []\<rparr>],
                    True))
             else st
         | _ \<Rightarrow> st))"

definition scan_link :: "string list \<Rightarrow> nat \<Rightarrow> link \<Rightarrow> bf_state \<Rightarrow> bf_state" where
  "scan_link act i l st =
     (let u = source l; v = target l in
      if u \<notin> set act \<or> v \<notin> set act then st
      else relax_edge i l v u (relax_edge i l u v st))"

definition scan_links :: "string list \<Rightarrow> nat \<Rightarrow> link list \<Rightarrow> bf_state \<Rightarrow> bf_state" where
  "scan_links act i ls st = foldl (\<lambda>s l. scan_link act i l s) st ls"

text \<open>
  \<open>for (let i = 0; i < V - 1; i++)\<close> with its \<open>break\<close>; the flag is reset at the start
  of each iteration.
\<close>

function bf_loop ::
  "string list \<Rightarrow> link list \<Rightarrow> nat \<Rightarrow> nat \<Rightarrow> bf_state \<Rightarrow> bf_state"
where
  "bf_loop act ls V i (ds, pv, steps, somethingChanged) =
     (if int i < int V - 1 then
        (case scan_links act i ls (ds, pv, steps, False) of
           (ds', pv', steps', changed) \<Rightarrow>
             if \<not> changed then
               (ds', pv',
                steps' @ [\<lparr>stepIndex = length steps', description = BFConverged (i + 1),
                           distances = ds', previous = pv',
                           activeNodes = [], activeLinks = [], visitedNodes = []\<rparr>],
                changed)
             else bf_loop act ls V (i + 1) (ds', pv', steps', changed))
      else (ds, pv, steps, somethingChanged))"
  by pat_completeness auto
termination
  by (relation "measure (\<lambda>(act, ls, V, i, st). V - i)") auto

declare bf_loop.simps [simp del]

definition runBellmanFord :: "graph_data \<Rightarrow> string \<Rightarrow> simulation_step list" where
  "runBellmanFord data startNodeId =
     (let ns = filter_active_nodes data;
          ls = filter_active_links data;
          act = activeNodeIds data;
          ds = init_distances (nodes data) startNodeId;
          pv = init_previous (nodes data)
      in if startNodeId \<notin> set act then
           [\<lparr>stepIndex = 0, description = BFStartInactive startNodeId,
             distances = ds, previous = pv,
             activeNodes = [], activeLinks = [], visitedNodes = []\<rparr>]
         else
           (let steps = [\<lparr>stepIndex = 0, description = BFInitialized,
                           distances = ds, previous = pv,
                           activeNodes = [startNodeId], activeLinks = [], visitedNodes = []\<rparr>];
                V = length ns;
                (ds', pv', steps', changed) = bf_loop act ls V 0 (ds, pv, steps, False)
            in steps' @ [\<lparr>stepIndex = length steps', description = BFComplete,
                           distances = ds', previous = pv',
                           activeNodes = [], activeLinks = [], visitedNodes = []\<rparr>]))"

definition runAlgorithm :: "algorithm_type \<Rightarrow> graph_data \<Rightarrow> string \<Rightarrow> simulation_step list" where
  "runAlgorithm type data startNodeId =
     (if type = DIJKSTRA then runDijkstra data startNodeId
      else runBellmanFord data startNodeId)"

subsection \<open>The built-in topology (constants.ts)\<close>

definition mk_node :: "string \<Rightarrow> bool \<Rightarrow> node" where
  "mk_node i a = \<lparr>node_id = i, node_active = a\<rparr>"

definition mk_link :: "string \<Rightarrow> string \<Rightarrow> string \<Rightarrow> int \<Rightarrow> bool \<Rightarrow> link" where
  "mk_link i s t w a = \<lparr>link_id = i, source = s, target = t, weight = w, link_active = a\<rparr>"

definition INITIAL_GRAPH :: graph_data where
  "INITIAL_GRAPH =
     \<lparr>nodes = [mk_node ''A'' True, mk_node ''B'' True, mk_node ''C'' True,
               mk_node ''D'' True, mk_node ''E'' True, mk_node ''F'' True],
      links = [mk_link ''AB'' ''A'' ''B'' 4 True,
               mk_link ''AC'' ''A'' ''C'' 2 True,
               mk_link ''BC'' ''B'' ''C'' 1 True,
               mk_link ''BD'' ''B'' ''D'' 5 True,
               mk_link ''CE'' ''C'' ''E'' 8 True,
               mk_link ''CD'' ''C'' ''D'' 10 True,
               mk_link ''DE'' ''D'' ''E'' 2 True,
               mk_link ''DF'' ''D'' ''F'' 6 True,
               mk_link ''EF'' ''E'' ''F'' 3 True]\<rparr>"

section \<open>Path reconstruction for the selected end node (App.tsx, shortestPathData)\<close>

text \<open>
  \<open>graphData.links.find(...)\<close>: the first link of the topology, active or not, whose
  endpoints are the two nodes in either order.  All three reconstruction sites use it.
\<close>

definition joins :: "link \<Rightarrow> string \<Rightarrow> string \<Rightarrow> bool" where
  "joins l a b = ((source l = a \<and> target l = b) \<or> (source l = b \<and> target l = a))"

definition find_link :: "graph_data \<Rightarrow> string \<Rightarrow> string \<Rightarrow> link option" where
  "find_link graphData a b = find (\<lambda>l. joins l a b) (links graphData)"








section \<open>Packet forwarding (App.tsx, updatePackets)\<close>

datatype packet_status = moving | delivered | lost

text \<open>
  \<open>progress\<close> and \<open>speed\<close> are JavaScript numbers; the model takes them as reals.
\<close>

record packet =
  packet_id :: string
  sourceId :: string
  targetId :: string
  currentEdgeId :: "string option"
  currentNodeId :: string
  nextHopId :: "string option"
  progress :: real
  speed :: real
  status :: packet_status

text \<open>
  \<open>while (curr && curr !== arrivedNodeId) { path.push(curr); curr = previous[curr]; }\<close>.
  \<open>curr\<close> is a string, null or undefined (\<open>None\<close> for the last two); the loop stops on
  null, undefined and the empty string.  It carries no iteration bound, so the model is a
  partial function: \<open>None\<close> is the run that never leaves the loop.
\<close>

partial_function (option) collect_path ::
  "prev_map \<Rightarrow> string \<Rightarrow> string option \<Rightarrow> string list \<Rightarrow> string list option"
where
  "collect_path prevMap arrivedNodeId cur path =
     (case cur of
        None \<Rightarrow> Some path
      | Some c \<Rightarrow>
          if c = [] \<or> c = arrivedNodeId then Some path
          else collect_path prevMap arrivedNodeId
                 (case map_of prevMap c of Some x \<Rightarrow> x | None \<Rightarrow> None) (path @ [c]))"

text \<open>
  The function mapped over the packets by \<open>updatePackets\<close>, for one packet and the
  elapsed time \<open>delta\<close>.  \<open>p.nextHopId!\<close> is read without a check.  When it is null,
  no node identifier equals it: the run returns the single step of an invalid start,
  the target's entry is the sentinel if the target is a node of the topology, and no link
  joins null to anything; the first branch below writes that out.
\<close>

definition update_packet ::
  "algorithm_type \<Rightarrow> graph_data \<Rightarrow> real \<Rightarrow> packet \<Rightarrow> packet option"
where
  "update_packet algorithm graphData delta p =
     (if status p \<noteq> moving then Some p
      else
        (let newProgress = progress p + speed p * delta in
         if newProgress \<ge> 1 then
           (case nextHopId p of
              None \<Rightarrow>
                if targetId p \<in> node_id ` set (nodes graphData)
                then Some (p\<lparr>status := lost, progress := 1\<rparr>)
                else Some (p\<lparr>status := lost\<rparr>)
            | Some arrivedNodeId \<Rightarrow>
                if arrivedNodeId = targetId p then
                  Some (p\<lparr>progress := 1, status := delivered, currentEdgeId := None,
                           currentNodeId := arrivedNodeId\<rparr>)
                else
                  (let routeSteps = runAlgorithm algorithm graphData arrivedNodeId;
                       convergedStep = last routeSteps
                   in if (case map_of (distances convergedStep) (targetId p) of
                            Some d \<Rightarrow> d \<ge> INFINITY | None \<Rightarrow> False)
                      then Some (p\<lparr>status := lost, progress := 1\<rparr>)
                      else
                        (case collect_path (previous convergedStep) arrivedNodeId
                                (Some (targetId p)) [] of
                           None \<Rightarrow> None
                         | Some path \<Rightarrow>
                             if path = [] then Some (p\<lparr>status := lost\<rparr>)
                             else
                               (let nextHop = last path in
                                case find_link graphData arrivedNodeId nextHop of
                                  Some l \<Rightarrow>
                                    if link_active l then
                                      Some (p\<lparr>currentNodeId := arrivedNodeId,
                                               nextHopId := Some nextHop,
                                               currentEdgeId := Some (link_id l),
                                               progress := 0\<rparr>)
                                    else Some (p\<lparr>status := lost\<rparr>)
                                | None \<Rightarrow> Some (p\<lparr>status := lost\<rparr>)))))
         else Some (p\<lparr>progress := newProgress\<rparr>)))"

text \<open>
  The state update of \<open>updatePackets\<close>: every packet of the list is updated, and the
  packets that are no longer moving are dropped from the list.
\<close>

definition updatePackets ::
  "algorithm_type \<Rightarrow> graph_data \<Rightarrow> real \<Rightarrow> packet list \<Rightarrow> packet list option"
where
  "updatePackets algorithm graphData delta prevPackets =
     (if prevPackets = [] then Some []
      else map_option (filter (\<lambda>p. status p = moving))
             (those (map (update_packet algorithm graphData delta) prevPackets)))"

section \<open>Specification vocabulary\<close>

text \<open>
  Between two consecutive steps: wherever the predecessor entry of a node changes, its
  distance entry is present in both steps and strictly smaller in the later one.
\<close>

definition prev_change_decreases :: "simulation_step \<Rightarrow> simulation_step \<Rightarrow> bool" where
  "prev_change_decreases a b =
     (\<forall>v. map_of (previous b) v \<noteq> map_of (previous a) v \<longrightarrow>
          (\<exists>x y. map_of (distances a) v = Some x \<and> map_of (distances b) v = Some y \<and> y < x))"

text \<open>
  The step list of a Dijkstra run ends in the current dictionaries, and every two
  consecutive steps satisfy the condition above.
\<close>

definition trace_ok :: "relax_state \<Rightarrow> bool" where
  "trace_ok st = (case st of (ds, pv, steps) \<Rightarrow>
      steps \<noteq> [] \<and> distances (last steps) = ds \<and> previous (last steps) = pv
      \<and> successively prev_change_decreases steps)"

text \<open>
  The identifiers of the active nodes, and the links the algorithms work on: active
  links whose two ends are active nodes.
\<close>

definition active_ids :: "graph_data \<Rightarrow> string set" where
  "active_ids data = node_id ` set (filter_active_nodes data)"

definition usable :: "graph_data \<Rightarrow> link \<Rightarrow> bool" where
  "usable data l =
     (l \<in> set (links data) \<and> link_active l
      \<and> source l \<in> active_ids data \<and> target l \<in> active_ids data)"

text \<open>
  The guard of one Bellman-Ford relaxation from \<open>from\<close> to \<open>to\<close>: the source distance is
  not the sentinel and the alternative is strictly smaller than the current distance.
\<close>

definition relaxable :: "dist_map \<Rightarrow> link \<Rightarrow> string \<Rightarrow> string \<Rightarrow> bool" where
  "relaxable ds l from to =
     (case (map_of ds from, map_of ds to) of
        (Some df, Some dt) \<Rightarrow> df \<noteq> INFINITY \<and> df + weight l < dt
      | _ \<Rightarrow> False)"

text \<open>
  No entry exceeds the sentinel; and a distance dictionary lies below another one, key by
  key.
\<close>

definition bounded :: "dist_map \<Rightarrow> bool" where
  "bounded ds = (\<forall>k d. map_of ds k = Some d \<longrightarrow> d \<le> INFINITY)"

definition decreased :: "dist_map \<Rightarrow> dist_map \<Rightarrow> bool" where
  "decreased ds0 ds = (\<forall>k d0. map_of ds0 k = Some d0 \<longrightarrow> (\<exists>d. map_of ds k = Some d \<and> d \<le> d0))"

text \<open>
  One direction of a link has been attempted between two distance dictionaries: the
  distance of \<open>to\<close> afterwards is at most what the relaxation from \<open>from\<close> would have
  written.  \<open>attempted\<close> says so for both directions of every usable link.
\<close>

definition edge_done :: "dist_map \<Rightarrow> dist_map \<Rightarrow> link \<Rightarrow> string \<Rightarrow> string \<Rightarrow> bool" where
  "edge_done before after l from to =
     (\<forall>df. map_of before from = Some df \<longrightarrow> df \<noteq> INFINITY \<longrightarrow>
        (\<exists>dt. map_of after to = Some dt \<and> dt \<le> df + weight l))"

definition attempted :: "graph_data \<Rightarrow> dist_map \<Rightarrow> dist_map \<Rightarrow> bool" where
  "attempted data before after =
     (\<forall>l. usable data l \<longrightarrow>
        edge_done before after l (source l) (target l)
        \<and> edge_done before after l (target l) (source l))"













definition shape :: "nat \<Rightarrow> simulation_step \<Rightarrow> bool" where
  "shape i st =
     (description st = BFInitialized
      \<or> (\<exists>j f t d. description st = BFRelaxing j f t d \<and> 1 \<le> j \<and> j \<le> i))"




text \<open>
  Paths from \<open>u\<close> to \<open>v\<close> over active nodes and active links, as link lists, and their
  total weight.
\<close>

fun path_ok :: "graph_data \<Rightarrow> string \<Rightarrow> link list \<Rightarrow> string \<Rightarrow> bool" where
  "path_ok data u [] v = (u = v \<and> u \<in> active_ids data)"
| "path_ok data u (l # ls) v =
     (usable data l \<and> touches u l \<and> path_ok data (other_end u l) ls v)"

definition path_weight :: "link list \<Rightarrow> int" where
  "path_weight p = sum_list (map weight p)"

text \<open>
  The entry of a node in a distance dictionary, the sentinel when it has none.
\<close>

definition dval :: "dist_map \<Rightarrow> string \<Rightarrow> int" where
  "dval ds k = (case map_of ds k of Some d \<Rightarrow> d | None \<Rightarrow> INFINITY)"

text \<open>
  A sound distance dictionary for the start node \<open>s\<close>: entries between 0 and the
  sentinel, one for every active node, 0 for \<open>s\<close>, and every entry below the sentinel
  is the weight of some path from \<open>s\<close>.
\<close>

definition good :: "graph_data \<Rightarrow> string \<Rightarrow> dist_map \<Rightarrow> bool" where
  "good data s ds =
     (bounded ds \<and> (\<forall>k\<in>active_ids data. map_of ds k \<noteq> None) \<and> map_of ds s = Some 0
      \<and> (\<forall>k d. map_of ds k = Some d \<longrightarrow> 0 \<le> d)
      \<and> (\<forall>k d. map_of ds k = Some d \<longrightarrow> d < INFINITY \<longrightarrow>
             (\<exists>p. path_ok data s p k \<and> path_weight p = d)))"

text \<open>
  The guard of the Dijkstra relaxation, and the invariants of its main loop and of its
  loop over the neighbours of the current node \<open>c\<close>.
\<close>

definition improves :: "dist_map \<Rightarrow> link \<Rightarrow> string \<Rightarrow> string \<Rightarrow> bool" where
  "improves ds l c n =
     (case (map_of ds c, map_of ds n) of
        (Some dc, Some dn) \<Rightarrow> dc + weight l < dn
      | _ \<Rightarrow> False)"

definition dijk_inv :: "graph_data \<Rightarrow> string \<Rightarrow> dijkstra_state \<Rightarrow> bool" where
  "dijk_inv data s st =
     (case st of (U, Vs, ds, pv, steps) \<Rightarrow>
        good data s ds
        \<and> set U \<union> set Vs = active_ids data \<and> set U \<inter> set Vs = {}
        \<and> (\<forall>u\<in>set Vs. \<forall>l. usable data l \<longrightarrow> touches u l \<longrightarrow>
               dval ds (other_end u l) \<le> dval ds u + weight l)
        \<and> (\<forall>u\<in>set Vs. \<forall>v\<in>set U. dval ds u \<le> dval ds v))"

definition relax_inv ::
  "graph_data \<Rightarrow> string \<Rightarrow> string \<Rightarrow> string list \<Rightarrow> dist_map \<Rightarrow> link list \<Rightarrow> relax_state \<Rightarrow> bool"
where
  "relax_inv data s c visited ds done st =
     (case st of (ds', pv', steps') \<Rightarrow>
        good data s ds' \<and> decreased ds ds'
        \<and> (\<forall>k. k \<in> set visited \<or> k \<notin> active_ids data \<longrightarrow> map_of ds' k = map_of ds k)
        \<and> (\<forall>l\<in>set done. other_end c l \<in> active_ids data \<longrightarrow>
               other_end c l \<notin> set visited \<longrightarrow>
               dval ds' (other_end c l) \<le> dval ds c + weight l)
        \<and> (\<forall>k. dval ds' k = dval ds k \<or> dval ds c \<le> dval ds' k))"

text \<open>
  Every entry is the least path weight from \<open>s\<close>, capped at the sentinel.
\<close>

definition shortest :: "graph_data \<Rightarrow> string \<Rightarrow> dist_map \<Rightarrow> bool" where
  "shortest data s ds =
     (\<forall>k d. map_of ds k = Some d \<longrightarrow>
        d \<le> INFINITY
        \<and> (d < INFINITY \<longrightarrow> (\<exists>p. path_ok data s p k \<and> path_weight p = d))
        \<and> (\<forall>p. path_ok data s p k \<longrightarrow> d \<le> path_weight p))"

text \<open>
  The state in which the main loop of the Dijkstra variant ends for an active start
  node.
\<close>

definition dijkstra_final :: "graph_data \<Rightarrow> string \<Rightarrow> dijkstra_state" where
  "dijkstra_final data s =
     dijkstra_loop (activeNodeIds data) (filter_active_links data)
       (init_unvisited (nodes data), [], init_distances (nodes data) s, init_previous (nodes data),
        [\<lparr>stepIndex = 0, description = DijkstraInitialized s,
          distances = init_distances (nodes data) s, previous = init_previous (nodes data),
          activeNodes = [s], activeLinks = [], visitedNodes = []\<rparr>])"

text \<open>
  Every path of at most \<open>n\<close> links is accounted for by the distance dictionary.
\<close>

definition covers :: "graph_data \<Rightarrow> string \<Rightarrow> nat \<Rightarrow> dist_map \<Rightarrow> bool" where
  "covers data s n ds =
     (\<forall>p v. path_ok data s p v \<longrightarrow> length p \<le> n \<longrightarrow>
        (\<exists>d. map_of ds v = Some d \<and> d \<le> path_weight p))"

text \<open>
  The state in which the outer loop of the Bellman-Ford variant ends for an active
  start node.
\<close>

definition bf_final :: "graph_data \<Rightarrow> string \<Rightarrow> bf_state" where
  "bf_final data s =
     bf_loop (activeNodeIds data) (filter_active_links data) (length (filter_active_nodes data)) 0
       (init_distances (nodes data) s, init_previous (nodes data),
        [\<lparr>stepIndex = 0, description = BFInitialized,
          distances = init_distances (nodes data) s, previous = init_previous (nodes data),
          activeNodes = [s], activeLinks = [], visitedNodes = []\<rparr>], False)"





text \<open>
  The weight of the link with a given identifier (the first one in the link list), and the
  sum of the weights along a list of link identifiers such as \<open>pathIds\<close>.
\<close>

definition link_weight :: "graph_data \<Rightarrow> string \<Rightarrow> int" where
  "link_weight data i =
     (case find (\<lambda>l. link_id l = i) (links data) of Some l \<Rightarrow> weight l | None \<Rightarrow> 0)"

definition path_cost :: "graph_data \<Rightarrow> string list \<Rightarrow> int" where
  "path_cost data ids = sum_list (map (link_weight data) ids)"





section \<open>Properties of the initialisation\<close>

lemma set_set_add: "set (set_add x xs) = insert x (set xs)"
  by (auto simp: set_add_def)

lemma set_foldl_set_add:
  "set (foldl (\<lambda>s n. set_add (node_id n) s) acc ns) = set acc \<union> node_id ` set ns"
  by (induction ns arbitrary: acc) (auto simp: set_set_add)

lemma set_activeNodeIds:
  "set (activeNodeIds data) = node_id ` {n \<in> set (nodes data). node_active n}"
  by (auto simp: activeNodeIds_def filter_active_nodes_def set_foldl_set_add)

lemma init_distances_foldl_keys:
  "fst ` set (foldl (\<lambda>ds n. AList.update (node_id n) (f n) ds) acc ns)
     = fst ` set acc \<union> node_id ` set ns"
  by (induction ns arbitrary: acc) (auto simp: dom_update)

lemma find_snoc:
  "find P (xs @ [x]) = (case find P xs of Some y \<Rightarrow> Some y | None \<Rightarrow> if P x then Some x else None)"
  by (induction xs) auto

lemma find_Some_mem: "find P xs = Some x \<Longrightarrow> P x \<and> x \<in> set xs"
  by (induction xs) (auto split: if_splits)

lemma map_of_foldl_update:
  "map_of (foldl (\<lambda>ds n. AList.update (node_id n) (f n) ds) acc ns) k =
     (case find (\<lambda>n. node_id n = k) (rev ns) of Some n \<Rightarrow> Some (f n) | None \<Rightarrow> map_of acc k)"
proof (induction ns arbitrary: acc)
  case Nil
  then show ?case by simp
next
  case (Cons n ns)
  show ?case
    by (simp add: Cons.IH find_snoc update_conv' split: option.splits)
qed

lemma map_of_init_distances:
  "map_of (init_distances ns s) k =
     (case find (\<lambda>n. node_id n = k) (rev ns) of
        Some n \<Rightarrow> Some (if node_id n = s \<and> node_active n then 0 else INFINITY)
      | None \<Rightarrow> None)"
  unfolding init_distances_def by (simp add: map_of_foldl_update split: option.splits)


lemma find_rev_None_iff: "find (\<lambda>n. node_id n = k) (rev ns) = None \<longleftrightarrow> k \<notin> node_id ` set ns"
  by (auto simp: find_None_iff)


section \<open>The built-in topology under Dijkstra\<close>

text \<open>
  C2, as stated: the run from \<open>A\<close> would end with the predecessors \<open>E:D\<close> and \<open>F:D\<close>.
  It does not.  When \<open>D\<close> is selected, \<open>E\<close> already has distance 10 through \<open>C\<close>, and
  the alternative \<open>8 + 2\<close> is not strictly smaller, so \<open>E\<close> keeps \<open>C\<close>; and \<open>F\<close> is
  improved from 14 to 13 when \<open>E\<close> is selected, so its predecessor is \<open>E\<close>.
\<close>

theorem initial_graph_previous_not_as_stated:
  "map_of (previous (last (runAlgorithm DIJKSTRA INITIAL_GRAPH ''A''))) ''E'' \<noteq> Some (Some ''D'')
   \<and> map_of (previous (last (runAlgorithm DIJKSTRA INITIAL_GRAPH ''A''))) ''F'' \<noteq> Some (Some ''D'')"
  by code_simp

text \<open>
  C2, amended: the run from \<open>A\<close> ends with the distances \<open>A:0, B:3, C:2, D:8, E:10,
  F:13\<close> and the predecessors \<open>A:none, B:C, C:A, D:B, E:C, F:E\<close> (so the route to \<open>F\<close>
  of cost 13 is A-C-E-F).
\<close>

theorem initial_graph_dijkstra_final:
  "distances (last (runAlgorithm DIJKSTRA INITIAL_GRAPH ''A'')) =
     [(''A'', 0), (''B'', 3), (''C'', 2), (''D'', 8), (''E'', 10), (''F'', 13)]
   \<and> previous (last (runAlgorithm DIJKSTRA INITIAL_GRAPH ''A'')) =
     [(''A'', None), (''B'', Some ''C''), (''C'', Some ''A''),
      (''D'', Some ''B''), (''E'', Some ''C''), (''F'', Some ''E'')]"
  by code_simp

section \<open>Invalid start node\<close>




section \<open>The step sequence is never empty\<close>

text \<open>
  C10: for every topology, variant and start node, \<open>runAlgorithm\<close> returns at least
  one step, so the index \<open>length - 1\<close> read by packet re-routing and traffic spawning is
  within the array.
\<close>

theorem runAlgorithm_nonempty:
  "runAlgorithm type data startNodeId \<noteq> []
   \<and> length (runAlgorithm type data startNodeId) - 1 < length (runAlgorithm type data startNodeId)"
proof -
  have "runAlgorithm type data startNodeId \<noteq> []"
    by (auto simp: runAlgorithm_def runDijkstra_def runBellmanFord_def Let_def split: prod.splits)
  then show ?thesis by (cases "runAlgorithm type data startNodeId") simp_all
qed

section \<open>Loop rules\<close>

lemma foldl_preserves:
  assumes "P s0" and "\<And>x s. P s \<Longrightarrow> x \<in> set xs \<Longrightarrow> P (f s x)"
  shows "P (foldl f s0 xs)"
  using assms by (induction xs arbitrary: s0) auto

lemma dijkstra_loop_preserves:
  assumes "I st"
    and "\<And>unvisited visited ds pv steps c m.
           I (unvisited, visited, ds, pv, steps) \<Longrightarrow> unvisited \<noteq> [] \<Longrightarrow>
           select_min ds unvisited = (Some c, m) \<Longrightarrow> map_of ds c \<noteq> Some INFINITY \<Longrightarrow>
           I (dijkstra_body act ls c m (unvisited, visited, ds, pv, steps))"
  shows "I (dijkstra_loop act ls st)"
  using assms
proof (induction act ls st rule: dijkstra_loop.induct)
  case (1 act ls unvisited visited ds pv steps)
  show ?case
  proof (cases "unvisited = []")
    case True
    with "1.prems"(1) show ?thesis by (simp add: dijkstra_loop.simps)
  next
    case ne: False
    obtain co m where sel: "select_min ds unvisited = (co, m)" by (cases "select_min ds unvisited")
    show ?thesis
    proof (cases co)
      case None
      with ne sel "1.prems"(1) show ?thesis by (simp add: dijkstra_loop.simps)
    next
      case (Some c)
      show ?thesis
      proof (cases "map_of ds c = Some INFINITY")
        case True
        with ne sel Some "1.prems"(1) show ?thesis by (simp add: dijkstra_loop.simps)
      next
        case False
        have "I (dijkstra_body act ls c m (unvisited, visited, ds, pv, steps))"
          using "1.prems"(2) [OF "1.prems"(1) ne] sel Some False by simp
        then have "I (dijkstra_loop act ls (dijkstra_body act ls c m (unvisited, visited, ds, pv, steps)))"
          using "1.IH" [OF ne sel [symmetric]] Some False "1.prems"(2) by simp
        with ne sel Some False show ?thesis by (simp add: dijkstra_loop.simps)
      qed
    qed
  qed
qed

section \<open>Dijkstra: predecessors change only on strict improvement\<close>

lemma successively_snoc:
  "xs \<noteq> [] \<Longrightarrow> successively P (xs @ [x]) \<longleftrightarrow> successively P xs \<and> P (last xs) x"
  by (auto simp: successively_append_iff)

lemma successively_nth:
  "successively P xs \<Longrightarrow> Suc i < length xs \<Longrightarrow> P (xs ! i) (xs ! Suc i)"
proof (induction P xs arbitrary: i rule: successively.induct)
  case (3 P x y xs)
  then show ?case by (cases i) auto
qed auto

lemma relax_neighbor_trace_ok:
  "trace_ok st \<Longrightarrow> trace_ok (relax_neighbor act c visited l st)"
  by (cases st)
     (auto simp: trace_ok_def relax_neighbor_def Let_def successively_snoc prev_change_decreases_def
        update_conv' split: option.splits)

lemma relax_neighbors_trace_ok:
  "trace_ok st \<Longrightarrow> trace_ok (relax_neighbors act c visited ns st)"
  unfolding relax_neighbors_def
  by (rule foldl_preserves) (auto intro: relax_neighbor_trace_ok)

lemma dijkstra_body_trace_ok:
  assumes "trace_ok (ds, pv, steps)"
  shows "case dijkstra_body act ls c m (unvisited, visited, ds, pv, steps) of
           (u', v', ds', pv', steps') \<Rightarrow> trace_ok (ds', pv', steps')"
proof -
  let ?sel = "\<lparr>stepIndex = length steps, description = DijkstraSelected c m,
               distances = ds, previous = pv, activeNodes = [c], activeLinks = [],
               visitedNodes = set_add c visited\<rparr>"
  have "trace_ok (ds, pv, steps @ [?sel])"
    using assms by (simp add: trace_ok_def successively_snoc prev_change_decreases_def)
  then have "trace_ok (relax_neighbors act c (set_add c visited) (filter (touches c) ls)
                (ds, pv, steps @ [?sel]))"
    by (rule relax_neighbors_trace_ok)
  then show ?thesis
    by (simp add: dijkstra_body_def Let_def split: prod.splits)
qed

lemma dijkstra_loop_trace_ok:
  assumes "trace_ok (ds, pv, steps)"
  shows "case dijkstra_loop act ls (unvisited, visited, ds, pv, steps) of
           (u', v', ds', pv', steps') \<Rightarrow> trace_ok (ds', pv', steps')"
proof (rule dijkstra_loop_preserves
         [where I = "\<lambda>st. case st of (u', v', ds', pv', steps') \<Rightarrow> trace_ok (ds', pv', steps')"])
  show "case (unvisited, visited, ds, pv, steps) of
          (u', v', ds', pv', steps') \<Rightarrow> trace_ok (ds', pv', steps')"
    using assms by simp
next
  fix unvisited visited :: "string list" and ds :: dist_map and pv :: prev_map
    and steps :: "simulation_step list" and c :: string and m :: int
  assume "case (unvisited, visited, ds, pv, steps) of
            (u', v', ds', pv', steps') \<Rightarrow> trace_ok (ds', pv', steps')"
  then have "trace_ok (ds, pv, steps)" by simp
  then show "case dijkstra_body act ls c m (unvisited, visited, ds, pv, steps) of
               (u', v', ds', pv', steps') \<Rightarrow> trace_ok (ds', pv', steps')"
    by (rule dijkstra_body_trace_ok)
qed

lemma runDijkstra_successively:
  "successively prev_change_decreases (runDijkstra data s)"
proof (cases "s \<in> set (activeNodeIds data)")
  case False
  then show ?thesis by (simp add: runDijkstra_def Let_def)
next
  case True
  let ?ds = "init_distances (nodes data) s" and ?pv = "init_previous (nodes data)"
  let ?st0 = "\<lparr>stepIndex = 0, description = DijkstraInitialized s,
                distances = ?ds, previous = ?pv,
                activeNodes = [s], activeLinks = [], visitedNodes = []\<rparr>"
  obtain u' v' ds' pv' steps' where
    loop: "dijkstra_loop (activeNodeIds data) (filter_active_links data)
             (init_unvisited (nodes data), [], ?ds, ?pv, [?st0]) = (u', v', ds', pv', steps')"
    by (metis prod_cases5)
  have "trace_ok (?ds, ?pv, [?st0])" by (simp add: trace_ok_def)
  from dijkstra_loop_trace_ok [OF this, of "activeNodeIds data" "filter_active_links data"
         "init_unvisited (nodes data)" "[]"] loop
  have ok: "trace_ok (ds', pv', steps')" by simp
  then have "successively prev_change_decreases
               (steps' @ [\<lparr>stepIndex = length steps', description = DijkstraComplete,
                            distances = ds', previous = pv',
                            activeNodes = [], activeLinks = [], visitedNodes = v'\<rparr>])"
    by (simp add: trace_ok_def successively_snoc prev_change_decreases_def)
  with True loop show ?thesis by (simp add: runDijkstra_def Let_def)
qed

text \<open>
  C7: in a run of the Dijkstra variant, if the predecessor entry of a node differs
  between two consecutive emitted steps, then the distance entry of that node is strictly
  smaller in the later step; so an alternative of equal cost never replaces a predecessor.
\<close>

theorem predecessor_changes_only_on_decrease:
  assumes "Suc i < length (runDijkstra data startNodeId)"
    and "map_of (previous (runDijkstra data startNodeId ! Suc i)) v
           \<noteq> map_of (previous (runDijkstra data startNodeId ! i)) v"
  shows "\<exists>x y. map_of (distances (runDijkstra data startNodeId ! i)) v = Some x
            \<and> map_of (distances (runDijkstra data startNodeId ! Suc i)) v = Some y
            \<and> y < x"
  using successively_nth [OF runDijkstra_successively assms(1)] assms(2)
  by (simp add: prev_change_decreases_def)

theorem predecessor_changes_only_on_decrease_witness:
  "Suc 1 < length (runDijkstra INITIAL_GRAPH ''A'')
   \<and> map_of (previous (runDijkstra INITIAL_GRAPH ''A'' ! Suc 1)) ''B''
        \<noteq> map_of (previous (runDijkstra INITIAL_GRAPH ''A'' ! 1)) ''B''
   \<and> (\<exists>x y. map_of (distances (runDijkstra INITIAL_GRAPH ''A'' ! 1)) ''B'' = Some x
            \<and> map_of (distances (runDijkstra INITIAL_GRAPH ''A'' ! Suc 1)) ''B'' = Some y
            \<and> y < x)"
proof -
  have a: "Suc 1 < length (runDijkstra INITIAL_GRAPH ''A'')" by code_simp
  have b: "map_of (previous (runDijkstra INITIAL_GRAPH ''A'' ! Suc 1)) ''B''
             \<noteq> map_of (previous (runDijkstra INITIAL_GRAPH ''A'' ! 1)) ''B''" by code_simp
  from predecessor_changes_only_on_decrease [OF a b] a b show ?thesis by blast
qed


section \<open>The safety bound of the backward walk\<close>






section \<open>Bellman-Ford: one pass over the links\<close>

lemma foldl_prefix_invariant_aux:
  assumes "I pre s0"
    and "\<And>done x s. I done s \<Longrightarrow> x \<in> set xs \<Longrightarrow> I (done @ [x]) (f s x)"
  shows "I (pre @ xs) (foldl f s0 xs)"
  using assms
proof (induction xs arbitrary: pre s0)
  case Nil
  then show ?case by simp
next
  case (Cons x xs)
  have "I (pre @ [x]) (f s0 x)" using Cons.prems by simp
  from Cons.IH [OF this] Cons.prems(2) show ?case by simp
qed

lemma foldl_prefix_invariant:
  assumes "I [] s0"
    and "\<And>done x s. I done s \<Longrightarrow> x \<in> set xs \<Longrightarrow> I (done @ [x]) (f s x)"
  shows "I xs (foldl f s0 xs)"
  using foldl_prefix_invariant_aux [of I "[]" s0 xs f] assms by simp

lemma relax_edge_unfold:
  "relax_edge i l f t (ds, pv, steps, ch) =
     (if relaxable ds l f t then
        (AList.update t (the (map_of ds f) + weight l) ds,
         AList.update t (Some f) pv,
         steps @ [\<lparr>stepIndex = length steps,
                   description = BFRelaxing (i + 1) f t (the (map_of ds f) + weight l),
                   distances = AList.update t (the (map_of ds f) + weight l) ds,
                   previous = AList.update t (Some f) pv,
                   activeNodes = [f, t], activeLinks = [link_id l], visitedNodes = []\<rparr>],
         True)
      else (ds, pv, steps, ch))"
  by (auto simp: relax_edge_def relaxable_def Let_def split: option.splits)

lemma decreased_refl: "decreased ds ds"
  by (simp add: decreased_def)

lemma decreased_trans: "decreased a b \<Longrightarrow> decreased b c \<Longrightarrow> decreased a c"
  unfolding decreased_def by (meson order_trans)

lemma decreased_update:
  "map_of ds t = Some dt \<Longrightarrow> d \<le> dt \<Longrightarrow> decreased ds (AList.update t d ds)"
  by (auto simp: decreased_def update_conv')

lemma bounded_update:
  "bounded ds \<Longrightarrow> d \<le> INFINITY \<Longrightarrow> bounded (AList.update t d ds)"
  by (auto simp: bounded_def update_conv')

lemma edge_done_weaken:
  assumes "edge_done a b l f t" "decreased a0 a" "decreased b b'" "bounded a0"
  shows "edge_done a0 b' l f t"
  unfolding edge_done_def
proof (intro allI impI)
  fix df0 assume f0: "map_of a0 f = Some df0" and ne: "df0 \<noteq> INFINITY"
  from assms(2) f0 obtain df where df: "map_of a f = Some df" "df \<le> df0"
    by (auto simp: decreased_def)
  from assms(4) f0 have "df0 \<le> INFINITY" by (auto simp: bounded_def)
  with ne df have "df \<noteq> INFINITY" by simp
  with assms(1) df obtain dt where dt: "map_of b t = Some dt" "dt \<le> df + weight l"
    by (auto simp: edge_done_def)
  from assms(3) dt obtain dt' where "map_of b' t = Some dt'" "dt' \<le> dt"
    by (auto simp: decreased_def)
  with dt df show "\<exists>dt. map_of b' t = Some dt \<and> dt \<le> df0 + weight l" by auto
qed

lemma relax_edge_dists:
  assumes "bounded ds" "map_of ds f \<noteq> None" "map_of ds t \<noteq> None"
    and "relax_edge i l f t (ds, pv, steps, ch) = (ds', pv', steps', ch')"
  shows "decreased ds ds' \<and> bounded ds' \<and> edge_done ds ds' l f t"
proof -
  from assms(2,3) obtain df dt where k: "map_of ds f = Some df" "map_of ds t = Some dt" by auto
  from assms(1) k have b: "df \<le> INFINITY" "dt \<le> INFINITY" by (auto simp: bounded_def)
  show ?thesis
  proof (cases "relaxable ds l f t")
    case True
    then have lt: "df + weight l < dt" using k by (simp add: relaxable_def)
    have ds': "ds' = AList.update t (df + weight l) ds"
      using assms(4) True k by (simp add: relax_edge_unfold)
    show ?thesis
      using lt b k assms(1) unfolding ds'
      by (auto simp: decreased_update bounded_update edge_done_def update_conv')
  next
    case False
    then have "ds' = ds" using assms(4) by (simp add: relax_edge_unfold)
    moreover have "edge_done ds ds l f t"
      using False k by (auto simp: edge_done_def relaxable_def)
    ultimately show ?thesis using assms(1) by (simp add: decreased_refl)
  qed
qed

lemma decreased_keys: "decreased a b \<Longrightarrow> map_of a k \<noteq> None \<Longrightarrow> map_of b k \<noteq> None"
  by (auto simp: decreased_def)

lemma scan_link_dists:
  assumes "bounded ds" "map_of ds (source l) \<noteq> None" "map_of ds (target l) \<noteq> None"
    and "source l \<in> set act" "target l \<in> set act"
    and "scan_link act i l (ds, pv, steps, ch) = (ds', pv', steps', ch')"
  shows "decreased ds ds' \<and> bounded ds'
         \<and> edge_done ds ds' l (source l) (target l) \<and> edge_done ds ds' l (target l) (source l)"
proof -
  obtain ds1 pv1 steps1 ch1 where
    r1: "relax_edge i l (source l) (target l) (ds, pv, steps, ch) = (ds1, pv1, steps1, ch1)"
    by (metis prod_cases4)
  have r2: "relax_edge i l (target l) (source l) (ds1, pv1, steps1, ch1) = (ds', pv', steps', ch')"
    using assms(4-6) r1 by (simp add: scan_link_def Let_def)
  from relax_edge_dists [OF assms(1-3) r1]
  have a: "decreased ds ds1" "bounded ds1" "edge_done ds ds1 l (source l) (target l)" by simp_all
  from relax_edge_dists [OF a(2) decreased_keys [OF a(1) assms(3)] decreased_keys [OF a(1) assms(2)] r2]
  have b: "decreased ds1 ds'" "bounded ds'" "edge_done ds1 ds' l (target l) (source l)" by simp_all
  show ?thesis
    using a b assms(1) decreased_trans [OF a(1) b(1)]
      edge_done_weaken [OF a(3) decreased_refl b(1) assms(1)]
      edge_done_weaken [OF b(3) a(1) decreased_refl assms(1)]
    by simp
qed

lemma scan_link_skip:
  "source l \<notin> set act \<or> target l \<notin> set act \<Longrightarrow> scan_link act i l st = st"
  by (auto simp: scan_link_def Let_def)

lemma scan_links_pass:
  assumes b0: "bounded ds0"
    and keys: "\<forall>k\<in>set act. map_of ds0 k \<noteq> None"
    and scan: "scan_links act i ls (ds0, pv0, steps0, ch0) = (ds1, pv1, steps1, ch1)"
  shows "decreased ds0 ds1 \<and> bounded ds1
         \<and> (\<forall>l\<in>set ls. source l \<in> set act \<longrightarrow> target l \<in> set act \<longrightarrow>
               edge_done ds0 ds1 l (source l) (target l)
               \<and> edge_done ds0 ds1 l (target l) (source l))"
proof -
  let ?I = "\<lambda>done st. case st of (ds, pv, steps, ch) \<Rightarrow>
              decreased ds0 ds \<and> bounded ds
              \<and> (\<forall>l\<in>set done. source l \<in> set act \<longrightarrow> target l \<in> set act \<longrightarrow>
                    edge_done ds0 ds l (source l) (target l)
                    \<and> edge_done ds0 ds l (target l) (source l))"
  have "?I ls (foldl (\<lambda>s l. scan_link act i l s) (ds0, pv0, steps0, ch0) ls)"
  proof (rule foldl_prefix_invariant)
    show "?I [] (ds0, pv0, steps0, ch0)" using b0 by (simp add: decreased_refl)
  next
    fix "done" :: "link list" and x :: link and s :: bf_state
    assume I: "?I done s" and x: "x \<in> set ls"
    obtain ds pv steps ch where s: "s = (ds, pv, steps, ch)" by (metis prod_cases4)
    obtain ds' pv' steps' ch' where s': "scan_link act i x s = (ds', pv', steps', ch')"
      by (metis prod_cases4)
    from I s have inv: "decreased ds0 ds" "bounded ds"
      "\<forall>l\<in>set done. source l \<in> set act \<longrightarrow> target l \<in> set act \<longrightarrow>
          edge_done ds0 ds l (source l) (target l) \<and> edge_done ds0 ds l (target l) (source l)"
      by simp_all
    show "?I (done @ [x]) (scan_link act i x s)"
    proof (cases "source x \<in> set act \<and> target x \<in> set act")
      case False
      then have "scan_link act i x s = s" by (auto intro: scan_link_skip)
      with I s False show ?thesis by auto
    next
      case True
      have k: "map_of ds (source x) \<noteq> None" "map_of ds (target x) \<noteq> None"
        using True keys decreased_keys [OF inv(1)] by auto
      from scan_link_dists [OF inv(2) k _ _ s' [unfolded s]] True
      have st: "decreased ds ds'" "bounded ds'"
        "edge_done ds ds' x (source x) (target x)" "edge_done ds ds' x (target x) (source x)"
        by simp_all
      have old: "\<forall>l\<in>set done. source l \<in> set act \<longrightarrow> target l \<in> set act \<longrightarrow>
          edge_done ds0 ds' l (source l) (target l) \<and> edge_done ds0 ds' l (target l) (source l)"
        using inv(3) edge_done_weaken [OF _ decreased_refl st(1) b0] by blast
      have new: "edge_done ds0 ds' x (source x) (target x)" "edge_done ds0 ds' x (target x) (source x)"
        using edge_done_weaken [OF st(3) inv(1) decreased_refl b0]
          edge_done_weaken [OF st(4) inv(1) decreased_refl b0] by simp_all
      show ?thesis
        using s' old new st(2) decreased_trans [OF inv(1) st(1)] by simp
    qed
  qed
  with scan show ?thesis by (simp add: scan_links_def)
qed

lemma bf_loop_rule:
  assumes "J i st"
    and "\<And>i ds pv steps ch ds' pv' steps'.
           J i (ds, pv, steps, ch) \<Longrightarrow> int i < int V - 1 \<Longrightarrow>
           scan_links act i ls (ds, pv, steps, False) = (ds', pv', steps', True) \<Longrightarrow>
           J (Suc i) (ds', pv', steps', True)"
    and "\<And>i ds pv steps ch ds' pv' steps'.
           J i (ds, pv, steps, ch) \<Longrightarrow> int i < int V - 1 \<Longrightarrow>
           scan_links act i ls (ds, pv, steps, False) = (ds', pv', steps', False) \<Longrightarrow>
           R (ds', pv',
              steps' @ [\<lparr>stepIndex = length steps', description = BFConverged (i + 1),
                         distances = ds', previous = pv',
                         activeNodes = [], activeLinks = [], visitedNodes = []\<rparr>],
              False)"
    and "\<And>i st. J i st \<Longrightarrow> \<not> int i < int V - 1 \<Longrightarrow> R st"
  shows "R (bf_loop act ls V i st)"
  using assms
proof (induction act ls V i st rule: bf_loop.induct)
  case (1 act ls V i ds pv steps somethingChanged)
  show ?case
  proof (cases "int i < int V - 1")
    case False
    with "1.prems"(1,4) show ?thesis by (simp add: bf_loop.simps)
  next
    case True
    obtain ds' pv' steps' ch' where
      sc: "scan_links act i ls (ds, pv, steps, False) = (ds', pv', steps', ch')"
      by (metis prod_cases4)
    show ?thesis
    proof (cases ch')
      case False
      with "1.prems"(3) [OF "1.prems"(1) True] sc True show ?thesis
        by (simp add: bf_loop.simps)
    next
      case ch: True
      have J': "J (Suc i) (ds', pv', steps', True)"
        using "1.prems"(2) [OF "1.prems"(1) True] sc ch by simp
      have "R (bf_loop act ls V (i + 1) (ds', pv', steps', ch'))"
        using "1.IH" [OF True, of ds' "(pv', steps', ch')" pv' "(steps', ch')" steps' ch']
          sc ch J' "1.prems"(2-4)
        by simp
      with True sc ch show ?thesis by (simp add: bf_loop.simps)
    qed
  qed
qed

section \<open>Bellman-Ford: the shape of the trace\<close>


lemma joins_sym: "joins l a b \<Longrightarrow> joins l b a"
  by (auto simp: joins_def)

lemma joins_ends: "joins l (source l) (target l)"
  by (simp add: joins_def)

lemma set_filter_active_links:
  "set (filter_active_links data) = {l \<in> set (links data). link_active l}"
  by (auto simp: filter_active_links_def)

lemma set_activeNodeIds_active_ids: "set (activeNodeIds data) = active_ids data"
  by (auto simp: set_activeNodeIds active_ids_def filter_active_nodes_def)








lemma shape_mono: "shape i st \<Longrightarrow> i \<le> k \<Longrightarrow> shape k st"
  by (auto simp: shape_def)





lemma scan_attempted:
  assumes "bounded ds" "\<forall>k\<in>active_ids data. map_of ds k \<noteq> None"
    and "scan_links (activeNodeIds data) i (filter_active_links data) (ds, pv, steps, False)
           = (ds', pv', steps', ch')"
  shows "decreased ds ds' \<and> bounded ds' \<and> attempted data ds ds'"
proof -
  have k: "\<forall>k\<in>set (activeNodeIds data). map_of ds k \<noteq> None"
    using assms(2) by (simp add: set_activeNodeIds_active_ids)
  from scan_links_pass [OF assms(1) k assms(3)]
  show ?thesis
    by (auto simp: attempted_def usable_def set_filter_active_links set_activeNodeIds_active_ids)
qed


lemma bounded_init_distances: "bounded (init_distances ns s)"
  by (auto simp: bounded_def map_of_init_distances INFINITY_def split: option.splits if_splits)

lemma init_distances_keys:
  "map_of (init_distances ns s) k \<noteq> None \<longleftrightarrow> k \<in> node_id ` set ns"
  using find_rev_None_iff [of k ns] by (auto simp: map_of_init_distances split: option.splits)

lemma active_ids_subset: "active_ids data \<subseteq> node_id ` set (nodes data)"
  by (auto simp: active_ids_def filter_active_nodes_def)







section \<open>Paths and sound distance maps\<close>

lemma other_end_cases: "touches u l \<Longrightarrow> other_end u l = source l \<or> other_end u l = target l"
  by (auto simp: other_end_def)

lemma usable_other_end: "usable data l \<Longrightarrow> other_end u l \<in> active_ids data"
  by (auto simp: usable_def other_end_def)

lemma usable_touches_active: "usable data l \<Longrightarrow> touches u l \<Longrightarrow> u \<in> active_ids data"
  by (auto simp: usable_def touches_def)

lemma path_ok_active: "path_ok data u p v \<Longrightarrow> u \<in> active_ids data \<and> v \<in> active_ids data"
proof (induction p arbitrary: u)
  case Nil
  then show ?case by auto
next
  case (Cons l p)
  then show ?case by (auto dest: usable_touches_active)
qed

lemma path_ok_append:
  "path_ok data u (p @ q) v \<longleftrightarrow> (\<exists>x. path_ok data u p x \<and> path_ok data x q v)"
proof (induction p arbitrary: u)
  case Nil
  then show ?case by (auto dest: path_ok_active)
next
  case (Cons l p)
  then show ?case by auto
qed

lemma path_ok_snoc:
  "path_ok data u (p @ [l]) v \<longleftrightarrow>
     (\<exists>x. path_ok data u p x \<and> usable data l \<and> touches x l \<and> other_end x l = v)"
  by (auto simp: path_ok_append dest: usable_other_end)

lemma path_weight_simps [simp]:
  "path_weight [] = 0" "path_weight (l # p) = weight l + path_weight p"
  "path_weight (p @ q) = path_weight p + path_weight q"
  by (simp_all add: path_weight_def)

lemma path_weight_nonneg:
  "\<forall>l. usable data l \<longrightarrow> 0 \<le> weight l \<Longrightarrow> path_ok data u p v \<Longrightarrow> 0 \<le> path_weight p"
  by (induction p arbitrary: u) auto

lemma dval_Some: "map_of ds k = Some d \<Longrightarrow> dval ds k = d"
  by (simp add: dval_def)

lemma dval_key: "map_of ds k \<noteq> None \<Longrightarrow> map_of ds k = Some (dval ds k)"
  by (auto simp: dval_def)

lemma dval_update: "dval (AList.update t d ds) k = (if k = t then d else dval ds k)"
  by (simp add: dval_def update_conv')

lemma good_relax:
  assumes g: "good data s ds" and l: "usable data l" "touches f l" "other_end f l = t"
    and d: "map_of ds f = Some df" "df < INFINITY" "map_of ds t = Some dt" "df + weight l < dt"
    and w: "0 \<le> weight l"
  shows "good data s (AList.update t (df + weight l) ds)"
proof -
  from g have b: "bounded ds" and k: "\<forall>k\<in>active_ids data. map_of ds k \<noteq> None"
    and z: "map_of ds s = Some 0" and n: "\<forall>k d. map_of ds k = Some d \<longrightarrow> 0 \<le> d"
    and so: "\<forall>k d. map_of ds k = Some d \<longrightarrow> d < INFINITY \<longrightarrow>
               (\<exists>p. path_ok data s p k \<and> path_weight p = d)"
    by (simp_all add: good_def)
  from n d(1) have df0: "0 \<le> df" by blast
  from b d(3) have "dt \<le> INFINITY" by (auto simp: bounded_def)
  with d(4) have le: "df + weight l \<le> INFINITY" by simp
  have ts: "t \<noteq> s"
  proof
    assume "t = s"
    with z d(3) have "dt = 0" by simp
    with d(4) df0 w show False by simp
  qed
  from so d(1,2) obtain p where p: "path_ok data s p f" "path_weight p = df" by blast
  have p': "path_ok data s (p @ [l]) t" "path_weight (p @ [l]) = df + weight l"
    using p l by (auto simp: path_ok_snoc)
  show ?thesis
    unfolding good_def
  proof (intro conjI)
    show "bounded (AList.update t (df + weight l) ds)" using b le by (rule bounded_update)
    show "\<forall>k\<in>active_ids data. map_of (AList.update t (df + weight l) ds) k \<noteq> None"
      using k by (simp add: update_conv')
    show "map_of (AList.update t (df + weight l) ds) s = Some 0"
      using z ts by (simp add: update_conv')
    show "\<forall>k d. map_of (AList.update t (df + weight l) ds) k = Some d \<longrightarrow> 0 \<le> d"
      using n df0 w by (auto simp: update_conv')
    show "\<forall>k d. map_of (AList.update t (df + weight l) ds) k = Some d \<longrightarrow> d < INFINITY \<longrightarrow>
             (\<exists>p. path_ok data s p k \<and> path_weight p = d)"
      using so p' by (auto simp: update_conv')
  qed
qed

lemma good_init:
  assumes "s \<in> active_ids data" "map_of (init_distances (nodes data) s) s = Some 0"
  shows "good data s (init_distances (nodes data) s)"
  unfolding good_def
proof (intro conjI)
  show "bounded (init_distances (nodes data) s)" by (rule bounded_init_distances)
  show "\<forall>k\<in>active_ids data. map_of (init_distances (nodes data) s) k \<noteq> None"
    using active_ids_subset [of data] init_distances_keys [of "nodes data" s] by blast
  show "map_of (init_distances (nodes data) s) s = Some 0" by (rule assms(2))
  show "\<forall>k d. map_of (init_distances (nodes data) s) k = Some d \<longrightarrow> 0 \<le> d"
    by (auto simp: map_of_init_distances INFINITY_def split: option.splits if_splits)
  show "\<forall>k d. map_of (init_distances (nodes data) s) k = Some d \<longrightarrow> d < INFINITY \<longrightarrow>
          (\<exists>p. path_ok data s p k \<and> path_weight p = d)"
  proof (intro allI impI)
    fix k d assume a: "map_of (init_distances (nodes data) s) k = Some d" "d < INFINITY"
    then have "k = s \<and> d = 0"
      by (auto simp: map_of_init_distances split: option.splits if_splits dest: find_Some_mem)
    moreover have "path_ok data s [] s" using assms(1) by simp
    ultimately show "\<exists>p. path_ok data s p k \<and> path_weight p = d" by (intro exI [of _ "[]"]) simp
  qed
qed


section \<open>Dijkstra: the relaxation loop\<close>

lemma select_min_foldl_spec:
  "foldl (\<lambda>(currentId, minDist) i.
              case map_of (ds :: dist_map) i of
                Some d \<Rightarrow> if d < minDist then (Some i, d) else (currentId, minDist)
              | None \<Rightarrow> (currentId, minDist)) (c0, m0) us = (co, m)
   \<Longrightarrow> m \<le> m0 \<and> (\<forall>v\<in>set us. \<forall>d. map_of ds v = Some d \<longrightarrow> m \<le> d)
       \<and> ((co = c0 \<and> m = m0) \<or> (\<exists>c. co = Some c \<and> c \<in> set us \<and> map_of ds c = Some m \<and> m < m0))"
proof (induction us arbitrary: c0 m0)
  case Nil
  then show ?case by simp
next
  case (Cons u us)
  show ?case
  proof (cases "map_of ds u")
    case None
    with Cons.prems have "foldl (\<lambda>(currentId, minDist) i.
              case map_of ds i of
                Some d \<Rightarrow> if d < minDist then (Some i, d) else (currentId, minDist)
              | None \<Rightarrow> (currentId, minDist)) (c0, m0) us = (co, m)" by simp
    from Cons.IH [OF this] None show ?thesis by auto
  next
    case (Some d)
    show ?thesis
    proof (cases "d < m0")
      case True
      with Some Cons.prems have "foldl (\<lambda>(currentId, minDist) i.
              case map_of ds i of
                Some d \<Rightarrow> if d < minDist then (Some i, d) else (currentId, minDist)
              | None \<Rightarrow> (currentId, minDist)) (Some u, d) us = (co, m)" by simp
      from Cons.IH [OF this] Some True show ?thesis by fastforce
    next
      case False
      with Some Cons.prems have "foldl (\<lambda>(currentId, minDist) i.
              case map_of ds i of
                Some d \<Rightarrow> if d < minDist then (Some i, d) else (currentId, minDist)
              | None \<Rightarrow> (currentId, minDist)) (c0, m0) us = (co, m)" by simp
      from Cons.IH [OF this] Some False show ?thesis by fastforce
    qed
  qed
qed

lemma select_min_spec:
  assumes "select_min ds U = (co, m)"
  shows "(\<forall>v\<in>set U. \<forall>d. map_of ds v = Some d \<longrightarrow> m \<le> d)
         \<and> (case co of None \<Rightarrow> m = INFINITY
             | Some c \<Rightarrow> c \<in> set U \<and> map_of ds c = Some m \<and> m < INFINITY)"
  using select_min_foldl_spec [of ds None INFINITY U co m] assms
  by (auto simp: select_min_def split: option.splits)

lemma relax_neighbor_unfold:
  "relax_neighbor act c visited l (ds, pv, steps) =
     (if other_end c l \<in> set act \<and> other_end c l \<notin> set visited \<and> improves ds l c (other_end c l)
      then (AList.update (other_end c l) (the (map_of ds c) + weight l) ds,
            AList.update (other_end c l) (Some c) pv,
            steps @ [\<lparr>stepIndex = length steps,
                      description = DijkstraRelaxing c (other_end c l) (the (map_of ds c) + weight l),
                      distances = AList.update (other_end c l) (the (map_of ds c) + weight l) ds,
                      previous = AList.update (other_end c l) (Some c) pv,
                      activeNodes = [c, other_end c l], activeLinks = [link_id l],
                      visitedNodes = visited\<rparr>])
      else (ds, pv, steps))"
  by (auto simp: relax_neighbor_def improves_def Let_def split: option.splits)

lemma decreased_dval:
  "decreased a b \<Longrightarrow> map_of a k \<noteq> None \<Longrightarrow> dval b k \<le> dval a k"
  by (fastforce simp: decreased_def dval_def split: option.splits)

lemma relax_neighbor_inv:
  assumes inv: "relax_inv data s c visited ds done st"
    and c: "c \<in> set visited" "c \<in> active_ids data" "dval ds c < INFINITY"
    and act: "set act = active_ids data"
    and l: "l \<in> set (links data)" "link_active l" "touches c l" "0 \<le> weight l"
  shows "relax_inv data s c visited ds (done @ [l]) (relax_neighbor act c visited l st)"
proof -
  obtain ds' pv' steps' where st: "st = (ds', pv', steps')" by (metis prod_cases3)
  let ?n = "other_end c l"
  from inv st have i: "good data s ds'" "decreased ds ds'"
    "\<forall>k. k \<in> set visited \<or> k \<notin> active_ids data \<longrightarrow> map_of ds' k = map_of ds k"
    "\<forall>l\<in>set done. other_end c l \<in> active_ids data \<longrightarrow> other_end c l \<notin> set visited \<longrightarrow>
        dval ds' (other_end c l) \<le> dval ds c + weight l"
    "\<forall>k. dval ds' k = dval ds k \<or> dval ds c \<le> dval ds' k"
    by (simp_all add: relax_inv_def)
  from i(1) have keys: "\<forall>k\<in>active_ids data. map_of ds' k \<noteq> None" by (simp add: good_def)
  have cc: "map_of ds' c = map_of ds c" using i(3) c(1) by simp
  from keys c(2) obtain dc where dc: "map_of ds' c = Some dc" by auto
  have dvc: "dval ds c = dc" "dval ds' c = dc" using dc cc by (simp_all add: dval_def)
  show ?thesis
  proof (cases "?n \<in> set act \<and> ?n \<notin> set visited \<and> improves ds' l c ?n")
    case False
    then have same: "relax_neighbor act c visited l st = st"
      using st by (simp add: relax_neighbor_unfold)
    have "?n \<in> active_ids data \<longrightarrow> ?n \<notin> set visited \<longrightarrow> dval ds' ?n \<le> dval ds c + weight l"
    proof (intro impI)
      assume na: "?n \<in> active_ids data" and nv: "?n \<notin> set visited"
      from keys na obtain dn where dn: "map_of ds' ?n = Some dn" by auto
      with False na nv dc act have "\<not> dc + weight l < dn" by (simp add: improves_def)
      with dn dvc show "dval ds' ?n \<le> dval ds c + weight l" by (simp add: dval_def)
    qed
    with i st show ?thesis unfolding same by (simp add: relax_inv_def)
  next
    case True
    then have n: "?n \<in> active_ids data" "?n \<notin> set visited" "improves ds' l c ?n"
      using act by simp_all
    from keys n(1) obtain dn where dn: "map_of ds' ?n = Some dn" by auto
    from n(3) dc dn have lt: "dc + weight l < dn" by (simp add: improves_def)
    let ?ds = "AList.update ?n (dc + weight l) ds'"
    have re: "relax_neighbor act c visited l st =
        (?ds, AList.update ?n (Some c) pv',
         steps' @ [\<lparr>stepIndex = length steps',
                    description = DijkstraRelaxing c ?n (dc + weight l),
                    distances = ?ds, previous = AList.update ?n (Some c) pv',
                    activeNodes = [c, ?n], activeLinks = [link_id l],
                    visitedNodes = visited\<rparr>])"
      using True st dc by (simp add: relax_neighbor_unfold)
    have us: "usable data l"
      using l(1,2,3) c(2) n(1) by (auto simp: usable_def other_end_def touches_def split: if_splits)
    have g: "good data s ?ds"
      using good_relax [OF i(1) us l(3) refl dc _ dn lt l(4)] c(3) dvc by simp
    have de: "decreased ds ?ds"
      using decreased_trans [OF i(2) decreased_update [OF dn]] lt by simp
    have un: "\<forall>k. k \<in> set visited \<or> k \<notin> active_ids data \<longrightarrow> map_of ?ds k = map_of ds k"
      using i(3) n(1,2) by (auto simp: update_conv')
    have dn': "\<forall>l'\<in>set (done @ [l]). other_end c l' \<in> active_ids data \<longrightarrow>
                 other_end c l' \<notin> set visited \<longrightarrow>
                 dval ?ds (other_end c l') \<le> dval ds c + weight l'"
    proof (intro ballI impI)
      fix l' assume a: "l' \<in> set (done @ [l])" "other_end c l' \<notin> set visited"
        and a': "other_end c l' \<in> active_ids data"
      show "dval ?ds (other_end c l') \<le> dval ds c + weight l'"
      proof (cases "l' \<in> set done")
        case True
        with i(4) a(2) a' have old: "dval ds' (other_end c l') \<le> dval ds c + weight l'" by blast
        show ?thesis
        proof (cases "other_end c l' = ?n")
          case True
          have "dval ds' ?n = dn" using dn by (rule dval_Some)
          with old True lt show ?thesis by (simp add: dval_update)
        next
          case False
          with old show ?thesis by (simp add: dval_update)
        qed
      next
        case False
        with a(1) have "l' = l" by simp
        then show ?thesis using dvc by (simp add: dval_update)
      qed
    qed
    have lo: "\<forall>k. dval ?ds k = dval ds k \<or> dval ds c \<le> dval ?ds k"
      using i(5) dvc l(4) by (auto simp: dval_update)
    show ?thesis unfolding re using g de un dn' lo by (simp add: relax_inv_def)
  qed
qed

lemma relax_neighbors_inv:
  assumes g: "good data s ds"
    and c: "c \<in> set visited" "c \<in> active_ids data" "dval ds c < INFINITY"
    and act: "set act = active_ids data"
    and ns: "\<forall>l\<in>set ns. l \<in> set (links data) \<and> link_active l \<and> touches c l \<and> 0 \<le> weight l"
  shows "relax_inv data s c visited ds ns (relax_neighbors act c visited ns (ds, pv, steps))"
  unfolding relax_neighbors_def
proof (rule foldl_prefix_invariant)
  show "relax_inv data s c visited ds [] (ds, pv, steps)"
    using g by (simp add: relax_inv_def decreased_refl)
next
  fix "done" :: "link list" and x :: link and st :: relax_state
  assume "relax_inv data s c visited ds done st" "x \<in> set ns"
  then show "relax_inv data s c visited ds (done @ [x]) (relax_neighbor act c visited x st)"
    using ns by (intro relax_neighbor_inv [OF _ c act]) auto
qed

section \<open>Dijkstra: the main loop\<close>

lemma dijkstra_loop_rule:
  assumes "I st"
    and "\<And>unvisited visited ds pv steps c m.
           I (unvisited, visited, ds, pv, steps) \<Longrightarrow> unvisited \<noteq> [] \<Longrightarrow>
           select_min ds unvisited = (Some c, m) \<Longrightarrow> map_of ds c \<noteq> Some INFINITY \<Longrightarrow>
           I (dijkstra_body act ls c m (unvisited, visited, ds, pv, steps))"
    and "\<And>unvisited visited ds pv steps.
           I (unvisited, visited, ds, pv, steps) \<Longrightarrow>
           unvisited = [] \<or> (\<exists>m. select_min ds unvisited = (None, m))
             \<or> (\<exists>c m. select_min ds unvisited = (Some c, m) \<and> map_of ds c = Some INFINITY) \<Longrightarrow>
           R (unvisited, visited, ds, pv, steps)"
  shows "R (dijkstra_loop act ls st)"
proof -
  have "I (dijkstra_loop act ls st) \<and>
        (case dijkstra_loop act ls st of (unvisited, visited, ds, pv, steps) \<Rightarrow>
           unvisited = [] \<or> (\<exists>m. select_min ds unvisited = (None, m))
             \<or> (\<exists>c m. select_min ds unvisited = (Some c, m) \<and> map_of ds c = Some INFINITY))"
    using assms(1,2)
  proof (induction act ls st rule: dijkstra_loop.induct)
    case (1 act ls unvisited visited ds pv steps)
    show ?case
    proof (cases "unvisited = []")
      case True
      with "1.prems"(1) show ?thesis by (simp add: dijkstra_loop.simps)
    next
      case ne: False
      obtain co m where sel: "select_min ds unvisited = (co, m)" by (cases "select_min ds unvisited")
      show ?thesis
      proof (cases co)
        case None
        with ne sel "1.prems"(1) show ?thesis by (simp add: dijkstra_loop.simps)
      next
        case (Some c)
        show ?thesis
        proof (cases "map_of ds c = Some INFINITY")
          case True
          with ne sel Some "1.prems"(1) show ?thesis by (simp add: dijkstra_loop.simps)
        next
          case False
          have "I (dijkstra_body act ls c m (unvisited, visited, ds, pv, steps))"
            using "1.prems"(2) [OF "1.prems"(1) ne] sel Some False by simp
          from "1.IH" [OF ne sel [symmetric] _ False this] Some "1.prems"(2)
          show ?thesis using ne sel Some False by (simp add: dijkstra_loop.simps)
        qed
      qed
    qed
  qed
  then show ?thesis
    using assms(3) [of "fst (dijkstra_loop act ls st)" "fst (snd (dijkstra_loop act ls st))"
        "fst (snd (snd (dijkstra_loop act ls st)))" "fst (snd (snd (snd (dijkstra_loop act ls st))))"
        "snd (snd (snd (snd (dijkstra_loop act ls st))))"]
    by (simp add: case_prod_beta)
qed

lemma set_set_add_insert: "set (set_add c Vs) = insert c (set Vs)"
  by (rule set_set_add)

lemma dijkstra_body_inv:
  assumes inv: "dijk_inv data s (U, Vs, ds, pv, steps)"
    and sel: "select_min ds U = (Some c, m)"
    and w: "\<forall>l\<in>set (links data). link_active l \<longrightarrow> 0 \<le> weight l"
  shows "dijk_inv data s
           (dijkstra_body (activeNodeIds data) (filter_active_links data) c m (U, Vs, ds, pv, steps))"
proof -
  let ?A = "active_ids data"
  from inv have g: "good data s ds" and P: "set U \<union> set Vs = ?A" "set U \<inter> set Vs = {}"
    and R: "\<forall>u\<in>set Vs. \<forall>l. usable data l \<longrightarrow> touches u l \<longrightarrow>
               dval ds (other_end u l) \<le> dval ds u + weight l"
    and O: "\<forall>u\<in>set Vs. \<forall>v\<in>set U. dval ds u \<le> dval ds v"
    by (simp_all add: dijk_inv_def)
  from g have keys: "\<forall>k\<in>?A. map_of ds k \<noteq> None" by (simp add: good_def)
  from select_min_spec [OF sel]
  have c: "c \<in> set U" "map_of ds c = Some m" "m < INFINITY"
    and mn: "\<forall>v\<in>set U. \<forall>d. map_of ds v = Some d \<longrightarrow> m \<le> d"
    by simp_all
  have cA: "c \<in> ?A" "c \<notin> set Vs" using c(1) P by auto
  have dc: "dval ds c = m" using c(2) by (rule dval_Some)
  let ?Vs = "set_add c Vs"
  let ?ns = "filter (touches c) (filter_active_links data)"
  let ?sel = "\<lparr>stepIndex = length steps, description = DijkstraSelected c m,
               distances = ds, previous = pv, activeNodes = [c], activeLinks = [],
               visitedNodes = ?Vs\<rparr>"
  obtain ds' pv' steps' where
    rn: "relax_neighbors (activeNodeIds data) c ?Vs ?ns (ds, pv, steps @ [?sel]) = (ds', pv', steps')"
    by (metis prod_cases3)
  have body: "dijkstra_body (activeNodeIds data) (filter_active_links data) c m (U, Vs, ds, pv, steps)
               = (removeAll c U, ?Vs, ds', pv', steps')"
    using rn by (simp add: dijkstra_body_def Let_def)
  have "relax_inv data s c ?Vs ds ?ns
          (relax_neighbors (activeNodeIds data) c ?Vs ?ns (ds, pv, steps @ [?sel]))"
  proof (rule relax_neighbors_inv [OF g _ cA(1) _ set_activeNodeIds_active_ids])
    show "c \<in> set ?Vs" by (simp add: set_set_add)
    show "dval ds c < INFINITY" using dc c(3) by simp
    show "\<forall>l\<in>set ?ns. l \<in> set (links data) \<and> link_active l \<and> touches c l \<and> 0 \<le> weight l"
      using w by (auto simp: set_filter_active_links)
  qed
  with rn have ri: "good data s ds'" "decreased ds ds'"
    "\<forall>k. k \<in> set ?Vs \<or> k \<notin> ?A \<longrightarrow> map_of ds' k = map_of ds k"
    "\<forall>l\<in>set ?ns. other_end c l \<in> ?A \<longrightarrow> other_end c l \<notin> set ?Vs \<longrightarrow>
        dval ds' (other_end c l) \<le> dval ds c + weight l"
    "\<forall>k. dval ds' k = dval ds k \<or> dval ds c \<le> dval ds' k"
    by (simp_all add: relax_inv_def)
  have same: "\<And>k. k \<in> set ?Vs \<Longrightarrow> dval ds' k = dval ds k"
    using ri(3) by (simp add: dval_def)
  have le: "\<And>k. k \<in> ?A \<Longrightarrow> dval ds' k \<le> dval ds k"
    using decreased_dval [OF ri(2)] keys by blast
  have P': "set (removeAll c U) \<union> set ?Vs = ?A" "set (removeAll c U) \<inter> set ?Vs = {}"
    using P c(1) by (auto simp: set_set_add)
  have R': "\<forall>u\<in>set ?Vs. \<forall>l. usable data l \<longrightarrow> touches u l \<longrightarrow>
               dval ds' (other_end u l) \<le> dval ds' u + weight l"
  proof (intro ballI allI impI)
    fix u l assume u: "u \<in> set ?Vs" and l: "usable data l" "touches u l"
    let ?n = "other_end u l"
    have nA: "?n \<in> ?A" using l(1) by (rule usable_other_end)
    have wl: "0 \<le> weight l" using l(1) w by (simp add: usable_def)
    show "dval ds' ?n \<le> dval ds' u + weight l"
    proof (cases "u = c")
      case True
      show ?thesis
      proof (cases "?n \<in> set ?Vs")
        case False
        have "l \<in> set ?ns" using l True by (simp add: usable_def set_filter_active_links)
        with ri(4) nA False True have "dval ds' ?n \<le> dval ds c + weight l" by blast
        with same [OF u] True show ?thesis by simp
      next
        case nv: True
        have "dval ds ?n \<le> dval ds c"
        proof (cases "?n = c")
          case True
          then show ?thesis by simp
        next
          case False
          with nv have "?n \<in> set Vs" by (simp add: set_set_add)
          with O c(1) show ?thesis by blast
        qed
        with same [OF nv] same [OF u] True wl show ?thesis by simp
      qed
    next
      case False
      with u have uV: "u \<in> set Vs" by (simp add: set_set_add)
      with R l have "dval ds ?n \<le> dval ds u + weight l" by blast
      with le [OF nA] same [OF u] show ?thesis by simp
    qed
  qed
  have O': "\<forall>u\<in>set ?Vs. \<forall>v\<in>set (removeAll c U). dval ds' u \<le> dval ds' v"
  proof (intro ballI)
    fix u v assume u: "u \<in> set ?Vs" and v: "v \<in> set (removeAll c U)"
    have uc: "dval ds u \<le> dval ds c"
    proof (cases "u = c")
      case True then show ?thesis by simp
    next
      case False
      with u have "u \<in> set Vs" by (simp add: set_set_add)
      with O c(1) show ?thesis by blast
    qed
    from v have vU: "v \<in> set U" by simp
    with P have "v \<in> ?A" by blast
    with keys have "map_of ds v \<noteq> None" by blast
    then have "map_of ds v = Some (dval ds v)" by (rule dval_key)
    with mn vU have "m \<le> dval ds v" by blast
    with ri(5) dc have "dval ds c \<le> dval ds' v" by (metis order_refl)
    with uc same [OF u] show "dval ds' u \<le> dval ds' v" by simp
  qed
  show ?thesis unfolding body using ri(1) P' R' O' by (simp add: dijk_inv_def)
qed

lemma dijk_lower_bound:
  assumes g: "good data s ds" and P: "set U \<union> set Vs = active_ids data"
    and R: "\<forall>u\<in>set Vs. \<forall>l. usable data l \<longrightarrow> touches u l \<longrightarrow>
               dval ds (other_end u l) \<le> dval ds u + weight l"
    and lo: "\<forall>u\<in>set Vs. dval ds u \<le> m" "\<forall>v\<in>set U. m \<le> dval ds v"
    and w: "\<forall>l. usable data l \<longrightarrow> 0 \<le> weight l"
  shows "path_ok data s p v \<Longrightarrow>
           (v \<in> set Vs \<longrightarrow> dval ds v \<le> path_weight p) \<and> (v \<in> set U \<longrightarrow> m \<le> path_weight p)"
proof (induction p arbitrary: v rule: rev_induct)
  case Nil
  then have v: "v = s" by simp
  from g have "dval ds s = 0" by (simp add: good_def dval_def)
  with v lo show ?case by auto
next
  case (snoc l p)
  from snoc.prems obtain x where x: "path_ok data s p x" "usable data l" "touches x l"
    "other_end x l = v" by (auto simp: path_ok_snoc)
  from snoc.IH [OF x(1)] have ih: "x \<in> set Vs \<longrightarrow> dval ds x \<le> path_weight p"
    "x \<in> set U \<longrightarrow> m \<le> path_weight p" by simp_all
  have wl: "0 \<le> weight l" using w x(2) by simp
  have xA: "x \<in> set U \<union> set Vs" using path_ok_active [OF x(1)] P by simp
  have vA: "v \<in> set U \<union> set Vs" using usable_other_end [OF x(2), of x] x(4) P by simp
  show ?case
  proof (cases "x \<in> set Vs")
    case True
    with R x have "dval ds v \<le> dval ds x + weight l" by blast
    with ih True have b: "dval ds v \<le> path_weight p + weight l" by simp
    with lo(2) show ?thesis by fastforce
  next
    case False
    with xA ih have b: "m \<le> path_weight p" by simp
    with wl lo(1) show ?thesis by fastforce
  qed
qed

lemma runDijkstra_last:
  assumes "s \<in> active_ids data"
  shows "distances (last (runDijkstra data s)) = fst (snd (snd (dijkstra_final data s)))"
    and "previous (last (runDijkstra data s)) = fst (snd (snd (snd (dijkstra_final data s))))"
  using assms
  by (simp_all add: runDijkstra_def dijkstra_final_def Let_def set_activeNodeIds_active_ids
        split: prod.splits)

lemma set_foldl_init_unvisited:
  "set (foldl (\<lambda>u n. if node_active n then set_add (node_id n) u else u) acc ns)
     = set acc \<union> node_id ` set (filter node_active ns)"
  by (induction ns arbitrary: acc) (auto simp: set_set_add)

lemma set_init_unvisited: "set (init_unvisited (nodes data)) = active_ids data"
  by (simp add: init_unvisited_def set_foldl_init_unvisited active_ids_def filter_active_nodes_def)

lemma dijk_inv_init:
  assumes "s \<in> active_ids data" "map_of (init_distances (nodes data) s) s = Some 0"
  shows "dijk_inv data s (init_unvisited (nodes data), [], init_distances (nodes data) s, pv, steps)"
  using good_init [OF assms] by (simp add: dijk_inv_def set_init_unvisited)

lemma update_existing_keys:
  "map_of ds k = Some d \<Longrightarrow> map fst (AList.update k v ds) = map fst ds"
  by (auto simp: update_keys dest: map_of_SomeD intro: rev_image_eqI)

lemma relax_neighbor_keys:
  "map fst (fst (relax_neighbor act c visited l st)) = map fst (fst st)"
proof -
  obtain ds pv steps where st: "st = (ds, pv, steps)" by (metis prod_cases3)
  show ?thesis
    unfolding st relax_neighbor_unfold
    by (auto simp: improves_def update_existing_keys split: option.splits)
qed

lemma relax_neighbors_keys:
  "map fst (fst (relax_neighbors act c visited ns st)) = map fst (fst st)"
  unfolding relax_neighbors_def
  by (rule foldl_preserves [where P = "\<lambda>x. map fst (fst x) = map fst (fst st)"])
     (simp_all add: relax_neighbor_keys)

lemma dijkstra_body_keys:
  "map fst (fst (snd (snd (dijkstra_body act ls c m (U, Vs, ds, pv, steps))))) = map fst ds"
  using relax_neighbors_keys [of act c "set_add c Vs" "filter (touches c) ls"]
  by (simp add: dijkstra_body_def Let_def split: prod.splits)

lemma dijkstra_loop_keys:
  "map fst (fst (snd (snd (dijkstra_loop act ls (U, Vs, ds, pv, steps))))) = map fst ds"
  by (rule dijkstra_loop_preserves
        [where I = "\<lambda>st. map fst (fst (snd (snd st))) = map fst ds"])
     (simp_all add: dijkstra_body_keys)

lemma dijkstra_exit_shortest:
  assumes inv: "dijk_inv data s (U, Vs, ds, pv, steps)"
    and ex: "U = [] \<or> (\<exists>m. select_min ds U = (None, m))
             \<or> (\<exists>c m. select_min ds U = (Some c, m) \<and> map_of ds c = Some INFINITY)"
    and w: "\<forall>l\<in>set (links data). link_active l \<longrightarrow> 0 \<le> weight l"
  shows "shortest data s ds"
proof -
  let ?A = "active_ids data"
  from inv have g: "good data s ds" and P: "set U \<union> set Vs = ?A"
    and R: "\<forall>u\<in>set Vs. \<forall>l. usable data l \<longrightarrow> touches u l \<longrightarrow>
               dval ds (other_end u l) \<le> dval ds u + weight l"
    by (simp_all add: dijk_inv_def)
  from g have b: "bounded ds" and keys: "\<forall>k\<in>?A. map_of ds k \<noteq> None"
    and so: "\<forall>k d. map_of ds k = Some d \<longrightarrow> d < INFINITY \<longrightarrow>
               (\<exists>p. path_ok data s p k \<and> path_weight p = d)"
    by (simp_all add: good_def)
  have bd: "\<And>k. dval ds k \<le> INFINITY"
    using b by (auto simp: bounded_def dval_def split: option.splits)
  have hi: "\<forall>v\<in>set U. INFINITY \<le> dval ds v"
  proof
    fix v assume v: "v \<in> set U"
    with P keys have k: "map_of ds v = Some (dval ds v)" by (metis UnI1 dval_key)
    from ex v show "INFINITY \<le> dval ds v"
    proof (elim disjE exE conjE)
      assume "U = []" with v show ?thesis by simp
    next
      fix m assume "select_min ds U = (None, m)"
      from select_min_spec [OF this] v k show ?thesis by auto
    next
      fix c m assume "select_min ds U = (Some c, m)" "map_of ds c = Some INFINITY"
      from select_min_spec [OF this(1)] this(2) show ?thesis by simp
    qed
  qed
  have w': "\<forall>l. usable data l \<longrightarrow> 0 \<le> weight l" using w by (simp add: usable_def)
  have lb: "\<And>p v. path_ok data s p v \<Longrightarrow> dval ds v \<le> path_weight p"
  proof -
    fix p v assume p: "path_ok data s p v"
    from dijk_lower_bound [OF g P R _ hi w' p, of] bd
    have "(v \<in> set Vs \<longrightarrow> dval ds v \<le> path_weight p) \<and> (v \<in> set U \<longrightarrow> INFINITY \<le> path_weight p)"
      by simp
    moreover have "v \<in> set U \<union> set Vs" using path_ok_active [OF p] P by simp
    ultimately show "dval ds v \<le> path_weight p" using bd [of v] by auto
  qed
  show ?thesis
    unfolding shortest_def
  proof (intro allI impI conjI)
    fix k d assume kd: "map_of ds k = Some d"
    show "d \<le> INFINITY" using b kd by (auto simp: bounded_def)
    show "\<exists>p. path_ok data s p k \<and> path_weight p = d" if "d < INFINITY" using so kd that by blast
    show "d \<le> path_weight p" if "path_ok data s p k" for p
      using lb [OF that] kd by (simp add: dval_def)
  qed
qed

lemma dijkstra_final_shortest:
  assumes "s \<in> active_ids data" "map_of (init_distances (nodes data) s) s = Some 0"
    and w: "\<forall>l\<in>set (links data). link_active l \<longrightarrow> 0 \<le> weight l"
  shows "shortest data s (fst (snd (snd (dijkstra_final data s))))"
  unfolding dijkstra_final_def
proof (rule dijkstra_loop_rule
         [where I = "dijk_inv data s" and R = "\<lambda>st. shortest data s (fst (snd (snd st)))"])
  show "dijk_inv data s (init_unvisited (nodes data), [], init_distances (nodes data) s,
          init_previous (nodes data),
          [\<lparr>stepIndex = 0, description = DijkstraInitialized s,
            distances = init_distances (nodes data) s, previous = init_previous (nodes data),
            activeNodes = [s], activeLinks = [], visitedNodes = []\<rparr>])"
    by (rule dijk_inv_init [OF assms(1,2)])
next
  fix unvisited visited :: "string list" and ds :: dist_map and pv :: prev_map
    and steps :: "simulation_step list" and c :: string and m :: int
  assume "dijk_inv data s (unvisited, visited, ds, pv, steps)"
    "select_min ds unvisited = (Some c, m)"
  then show "dijk_inv data s (dijkstra_body (activeNodeIds data) (filter_active_links data) c m
               (unvisited, visited, ds, pv, steps))"
    using w by (rule dijkstra_body_inv)
next
  fix unvisited visited :: "string list" and ds :: dist_map and pv :: prev_map
    and steps :: "simulation_step list"
  assume "dijk_inv data s (unvisited, visited, ds, pv, steps)"
    "unvisited = [] \<or> (\<exists>m. select_min ds unvisited = (None, m))
       \<or> (\<exists>c m. select_min ds unvisited = (Some c, m) \<and> map_of ds c = Some INFINITY)"
  then show "shortest data s (fst (snd (snd (unvisited, visited, ds, pv, steps))))"
    using w by (simp add: dijkstra_exit_shortest)
qed

section \<open>Bellman-Ford: paths covered after each iteration\<close>

lemma joins_other_end: "joins l f t \<Longrightarrow> touches f l \<and> other_end f l = t"
  by (auto simp: joins_def touches_def other_end_def)

lemma relax_edge_good:
  assumes g: "good data s (fst st)" and l: "usable data l" "joins l f t" "0 \<le> weight l"
  shows "good data s (fst (relax_edge i l f t st))"
proof -
  obtain ds pv steps ch where st: "st = (ds, pv, steps, ch)" by (metis prod_cases4)
  show ?thesis
  proof (cases "relaxable ds l f t")
    case False
    with g st show ?thesis by (simp add: relax_edge_unfold)
  next
    case True
    then obtain df dt where d: "map_of ds f = Some df" "map_of ds t = Some dt"
      "df \<noteq> INFINITY" "df + weight l < dt"
      by (auto simp: relaxable_def split: option.splits)
    from g st have "bounded ds" by (simp add: good_def)
    with d(1,3) have lt: "df < INFINITY" by (fastforce simp: bounded_def)
    from joins_other_end [OF l(2)] have j: "touches f l" "other_end f l = t" by simp_all
    from good_relax [OF _ l(1) j d(1) lt d(2,4) l(3)] g st True d(1)
    show ?thesis by (simp add: relax_edge_unfold)
  qed
qed

lemma scan_link_good:
  assumes g: "good data s (fst st)" and l: "l \<in> set (filter_active_links data)" "0 \<le> weight l"
  shows "good data s (fst (scan_link (activeNodeIds data) i l st))"
proof (cases "source l \<in> active_ids data \<and> target l \<in> active_ids data")
  case False
  with g show ?thesis by (auto simp: scan_link_def Let_def set_activeNodeIds_active_ids)
next
  case True
  then have u: "usable data l" using l(1) by (simp add: usable_def set_filter_active_links)
  have "good data s (fst (relax_edge i l (target l) (source l)
                            (relax_edge i l (source l) (target l) st)))"
    by (intro relax_edge_good g u l(2) joins_ends joins_sym [OF joins_ends])
  with True show ?thesis by (simp add: scan_link_def Let_def set_activeNodeIds_active_ids)
qed

lemma scan_links_good:
  assumes "good data s ds" "\<forall>l\<in>set (links data). link_active l \<longrightarrow> 0 \<le> weight l"
  shows "good data s (fst (scan_links (activeNodeIds data) i (filter_active_links data)
                             (ds, pv, steps, ch)))"
  unfolding scan_links_def
proof (rule foldl_preserves [where P = "\<lambda>st. good data s (fst st)"])
  show "good data s (fst (ds, pv, steps, ch))" using assms(1) by simp
next
  fix x :: link and st :: bf_state
  assume "good data s (fst st)" "x \<in> set (filter_active_links data)"
  then show "good data s (fst (scan_link (activeNodeIds data) i x st))"
    using assms(2) by (intro scan_link_good) (auto simp: set_filter_active_links)
qed

lemma relax_edge_flag:
  "snd (snd (snd st)) \<or> (fst st = ds \<and> fst (snd st) = pv) \<Longrightarrow>
   snd (snd (snd (relax_edge i l f t st)))
     \<or> (fst (relax_edge i l f t st) = ds \<and> fst (snd (relax_edge i l f t st)) = pv)"
  by (cases st) (auto simp: relax_edge_unfold)

lemma scan_links_unchanged:
  assumes "scan_links act i ls (ds, pv, steps, False) = (ds', pv', steps', False)"
  shows "ds' = ds \<and> pv' = pv"
proof -
  let ?Q = "\<lambda>st. snd (snd (snd st)) \<or> (fst st = ds \<and> fst (snd st) = pv)"
  have "?Q (foldl (\<lambda>s l. scan_link act i l s) (ds, pv, steps, False) ls)"
  proof (rule foldl_preserves [where P = ?Q])
    show "?Q (ds, pv, steps, False)" by simp
  next
    fix x :: link and st :: bf_state
    assume q: "?Q st"
    show "?Q (scan_link act i x st)"
    proof (cases "source x \<notin> set act \<or> target x \<notin> set act")
      case True
      with q show ?thesis by (simp add: scan_link_skip)
    next
      case False
      then have "scan_link act i x st
                   = relax_edge i x (target x) (source x) (relax_edge i x (source x) (target x) st)"
        by (simp add: scan_link_def Let_def)
      with relax_edge_flag [OF relax_edge_flag [OF q]] show ?thesis by simp
    qed
  qed
  with assms show ?thesis by (simp add: scan_links_def)
qed

lemma covers_0: "good data s ds \<Longrightarrow> covers data s 0 ds"
  by (auto simp: covers_def good_def)

lemma covers_step:
  assumes c: "covers data s n ds" and a: "attempted data ds ds'" and d: "decreased ds ds'"
    and g: "good data s ds'" and w: "\<forall>l. usable data l \<longrightarrow> 0 \<le> weight l"
  shows "covers data s (Suc n) ds'"
  unfolding covers_def
proof (intro allI impI)
  fix p v assume p: "path_ok data s p v" and len: "length p \<le> Suc n"
  from g have b: "bounded ds'" and keys: "\<forall>k\<in>active_ids data. map_of ds' k \<noteq> None"
    by (simp_all add: good_def)
  show "\<exists>d. map_of ds' v = Some d \<and> d \<le> path_weight p"
  proof (cases p rule: rev_cases)
    case Nil
    have "\<exists>d. map_of ds v = Some d \<and> d \<le> path_weight p"
      using c p Nil unfolding covers_def by (metis le0 list.size(3))
    then obtain d0 where "map_of ds v = Some d0" "d0 \<le> path_weight p" by blast
    with d show ?thesis by (fastforce simp: decreased_def)
  next
    case (snoc q l)
    with p obtain x where x: "path_ok data s q x" "usable data l" "touches x l" "other_end x l = v"
      by (auto simp: path_ok_snoc)
    from len snoc have "length q \<le> n" by simp
    with c x(1) obtain dx where dx: "map_of ds x = Some dx" "dx \<le> path_weight q"
      by (auto simp: covers_def)
    have ed: "edge_done ds ds' l x v"
      using a x(2,3,4) unfolding attempted_def touches_def other_end_def
      by (auto split: if_splits)
    have wl: "0 \<le> weight l" using w x(2) by simp
    show ?thesis
    proof (cases "dx = INFINITY")
      case False
      with ed dx obtain dv where "map_of ds' v = Some dv" "dv \<le> dx + weight l"
        by (auto simp: edge_done_def)
      with dx snoc show ?thesis by simp
    next
      case True
      have "v \<in> active_ids data" using usable_other_end [OF x(2), of x] x(4) by simp
      with keys obtain dv where dv: "map_of ds' v = Some dv" by auto
      with b have "dv \<le> INFINITY" by (auto simp: bounded_def)
      with True dx wl dv snoc show ?thesis by simp
    qed
  qed
qed

lemma covers_fixpoint:
  assumes "good data s ds" "attempted data ds ds" "\<forall>l. usable data l \<longrightarrow> 0 \<le> weight l"
  shows "covers data s n ds"
proof (induction n)
  case 0
  show ?case using assms(1) by (rule covers_0)
next
  case (Suc n)
  then show ?case using assms by (intro covers_step [OF _ _ decreased_refl])
qed

lemma path_ok_end: "path_ok data u p v \<Longrightarrow> v = foldl other_end u p"
  by (induction p arbitrary: u) auto

lemma path_ok_usable: "path_ok data u p v \<Longrightarrow> \<forall>l\<in>set p. usable data l"
  by (induction p arbitrary: u) auto

lemma path_ok_split:
  assumes "path_ok data u p v"
  shows "path_ok data u (take i p) (foldl other_end u (take i p))
         \<and> path_ok data (foldl other_end u (take i p)) (drop i p) v"
proof -
  from assms have "path_ok data u (take i p @ drop i p) v" by simp
  then obtain x where x: "path_ok data u (take i p) x" "path_ok data x (drop i p) v"
    unfolding path_ok_append by blast
  from path_ok_end [OF x(1)] x show ?thesis by simp
qed

lemma path_weight_cut:
  assumes "\<forall>l\<in>set p. 0 \<le> weight l" "i \<le> j"
  shows "path_weight (take i p @ drop j p) \<le> path_weight p"
proof -
  have p: "p = take i p @ take (j - i) (drop i p) @ drop j p"
    using assms(2) by (metis append_take_drop_id drop_drop le_add_diff_inverse2 add.commute)
  have "0 \<le> path_weight (take (j - i) (drop i p))"
    unfolding path_weight_def using assms(1)
    by (intro sum_list_nonneg) (auto dest!: in_set_takeD in_set_dropD)
  moreover have "path_weight p = path_weight (take i p) + path_weight (take (j - i) (drop i p))
                   + path_weight (drop j p)"
    by (subst p) simp
  ultimately show ?thesis by simp
qed

lemma path_shorten:
  assumes w: "\<forall>l. usable data l \<longrightarrow> 0 \<le> weight l"
  shows "path_ok data u p v \<Longrightarrow>
           \<exists>q. path_ok data u q v \<and> path_weight q \<le> path_weight p
                \<and> length q < card (active_ids data)"
proof (induction p rule: measure_induct_rule [of length])
  case (less p)
  let ?A = "active_ids data"
  have fin: "finite ?A" by (simp add: active_ids_def)
  show ?case
  proof (cases "length p < card ?A")
    case True
    with less.prems show ?thesis by blast
  next
    case False
    let ?f = "\<lambda>i. foldl other_end u (take i p)"
    have img: "?f ` {0..length p} \<subseteq> ?A"
      using path_ok_split [OF less.prems] path_ok_active by blast
    have "card (?f ` {0..length p}) \<le> card ?A" using img fin by (rule card_mono [rotated])
    also have "\<dots> < card {0..length p}" using False by simp
    finally have "\<not> inj_on ?f {0..length p}" by (rule pigeonhole)
    then obtain i j where ij: "i \<le> length p" "j \<le> length p" "i \<noteq> j" "?f i = ?f j"
      by (auto simp: inj_on_def)
    define a where "a = min i j"
    define b where "b = max i j"
    have ab: "a < b" "b \<le> length p" "?f a = ?f b"
      using ij by (auto simp: a_def b_def min_def max_def)
    let ?q = "take a p @ drop b p"
    have "path_ok data u (take a p) (?f a)" "path_ok data (?f b) (drop b p) v"
      using path_ok_split [OF less.prems] by blast+
    with ab(3) have q: "path_ok data u ?q v" unfolding path_ok_append by auto
    have "\<forall>l\<in>set p. 0 \<le> weight l" using path_ok_usable [OF less.prems] w by blast
    then have wq: "path_weight ?q \<le> path_weight p" using ab(1) by (intro path_weight_cut) simp_all
    have "length ?q < length p" using ab by simp
    from less.IH [OF this q] wq show ?thesis by fastforce
  qed
qed

lemma card_active_ids: "card (active_ids data) \<le> length (filter_active_nodes data)"
  unfolding active_ids_def
  by (rule order_trans [OF card_image_le card_length]) simp

lemma covers_all:
  assumes c: "covers data s n ds" and n: "card (active_ids data) \<le> Suc n"
    and w: "\<forall>l. usable data l \<longrightarrow> 0 \<le> weight l" and p: "path_ok data s p v"
  shows "\<exists>d. map_of ds v = Some d \<and> d \<le> path_weight p"
proof -
  from path_shorten [OF w p] obtain q where q: "path_ok data s q v"
    "path_weight q \<le> path_weight p" "length q < card (active_ids data)" by blast
  with n have "length q \<le> n" by simp
  with c q(1) obtain d where "map_of ds v = Some d" "d \<le> path_weight q" by (auto simp: covers_def)
  with q(2) show ?thesis by (intro exI [of _ d]) simp
qed

lemma good_covers_shortest:
  assumes g: "good data s ds"
    and c: "\<And>p v. path_ok data s p v \<Longrightarrow> \<exists>d. map_of ds v = Some d \<and> d \<le> path_weight p"
  shows "shortest data s ds"
  unfolding shortest_def
proof (intro allI impI conjI)
  fix k d assume kd: "map_of ds k = Some d"
  show "d \<le> INFINITY" using g kd by (auto simp: good_def bounded_def)
  show "\<exists>p. path_ok data s p k \<and> path_weight p = d" if "d < INFINITY"
    using g kd that by (simp add: good_def)
  show "d \<le> path_weight p" if "path_ok data s p k" for p
    using c [OF that] kd by auto
qed

lemma runBellmanFord_last:
  assumes "s \<in> active_ids data"
  shows "distances (last (runBellmanFord data s)) = fst (bf_final data s)"
    and "previous (last (runBellmanFord data s)) = fst (snd (bf_final data s))"
  using assms
  by (simp_all add: runBellmanFord_def bf_final_def Let_def set_activeNodeIds_active_ids
        split: prod.splits)

lemma inactive_last:
  assumes "s \<notin> active_ids data"
  shows "distances (last (runAlgorithm type data s)) = init_distances (nodes data) s"
    and "previous (last (runAlgorithm type data s)) = init_previous (nodes data)"
  using assms
  by (simp_all add: runAlgorithm_def runDijkstra_def runBellmanFord_def Let_def
        set_activeNodeIds_active_ids)

lemma bf_final_shortest:
  assumes s: "s \<in> active_ids data" "map_of (init_distances (nodes data) s) s = Some 0"
    and w: "\<forall>l\<in>set (links data). link_active l \<longrightarrow> 0 \<le> weight l"
  shows "shortest data s (fst (bf_final data s))"
  unfolding bf_final_def
proof (rule bf_loop_rule
         [where J = "\<lambda>i st. good data s (fst st) \<and> covers data s i (fst st)"
            and R = "\<lambda>st. shortest data s (fst st)"])
  have w': "\<forall>l. usable data l \<longrightarrow> 0 \<le> weight l" using w by (simp add: usable_def)
  show "good data s (fst (init_distances (nodes data) s, init_previous (nodes data),
          [\<lparr>stepIndex = 0, description = BFInitialized,
            distances = init_distances (nodes data) s, previous = init_previous (nodes data),
            activeNodes = [s], activeLinks = [], visitedNodes = []\<rparr>], False))
        \<and> covers data s 0 (fst (init_distances (nodes data) s, init_previous (nodes data),
          [\<lparr>stepIndex = 0, description = BFInitialized,
            distances = init_distances (nodes data) s, previous = init_previous (nodes data),
            activeNodes = [s], activeLinks = [], visitedNodes = []\<rparr>], False))"
    using good_init [OF s] by (simp add: covers_0)
  {
    fix i :: nat and ds ds' :: dist_map and pv pv' :: prev_map
      and steps steps' :: "simulation_step list" and ch :: bool
    assume J: "good data s (fst (ds, pv, steps, ch)) \<and> covers data s i (fst (ds, pv, steps, ch))"
      and sc: "scan_links (activeNodeIds data) i (filter_active_links data) (ds, pv, steps, False)
                 = (ds', pv', steps', True)"
    from J have g: "good data s ds" and c: "covers data s i ds" by simp_all
    from g have b: "bounded ds" "\<forall>k\<in>active_ids data. map_of ds k \<noteq> None"
      by (simp_all add: good_def)
    from scan_attempted [OF b sc] have a: "decreased ds ds'" "attempted data ds ds'" by simp_all
    from scan_links_good [OF g w, of i pv steps False] sc have g': "good data s ds'" by simp
    from covers_step [OF c a(2,1) g' w'] g'
    show "good data s (fst (ds', pv', steps', True)) \<and> covers data s (Suc i) (fst (ds', pv', steps', True))"
      by simp
  }
  {
    fix i :: nat and ds ds' :: dist_map and pv pv' :: prev_map
      and steps steps' :: "simulation_step list" and ch :: bool
    assume J: "good data s (fst (ds, pv, steps, ch)) \<and> covers data s i (fst (ds, pv, steps, ch))"
      and sc: "scan_links (activeNodeIds data) i (filter_active_links data) (ds, pv, steps, False)
                 = (ds', pv', steps', False)"
    from J have g: "good data s ds" by simp
    from g have b: "bounded ds" "\<forall>k\<in>active_ids data. map_of ds k \<noteq> None"
      by (simp_all add: good_def)
    from scan_links_unchanged [OF sc] have same: "ds' = ds" by simp
    from scan_attempted [OF b sc] same have a: "attempted data ds ds" by simp
    have "shortest data s ds"
    proof (rule good_covers_shortest [OF g])
      fix p v assume "path_ok data s p v"
      with covers_fixpoint [OF g a w', of "length p"]
      show "\<exists>d. map_of ds v = Some d \<and> d \<le> path_weight p" by (simp add: covers_def)
    qed
    with same
    show "shortest data s (fst (ds', pv',
              steps' @ [\<lparr>stepIndex = length steps', description = BFConverged (i + 1),
                         distances = ds', previous = pv',
                         activeNodes = [], activeLinks = [], visitedNodes = []\<rparr>], False))"
      by simp
  }
  {
    fix i :: nat and st :: bf_state
    assume J: "good data s (fst st) \<and> covers data s i (fst st)"
      and ex: "\<not> int i < int (length (filter_active_nodes data)) - 1"
    from ex card_active_ids [of data] have n: "card (active_ids data) \<le> Suc i" by simp
    show "shortest data s (fst st)"
    proof (rule good_covers_shortest)
      show "good data s (fst st)" using J by simp
      fix p v assume "path_ok data s p v"
      with J n show "\<exists>d. map_of (fst st) v = Some d \<and> d \<le> path_weight p"
        by (intro covers_all [OF _ _ w']) simp_all
    qed
  }
qed

lemma relax_edge_keys: "map fst (fst (relax_edge i l f t st)) = map fst (fst st)"
proof -
  obtain ds pv steps ch where st: "st = (ds, pv, steps, ch)" by (metis prod_cases4)
  show ?thesis
    unfolding st relax_edge_unfold
    by (auto simp: relaxable_def update_existing_keys split: option.splits)
qed

lemma scan_links_keys: "map fst (fst (scan_links act i ls st)) = map fst (fst st)"
  unfolding scan_links_def
  by (rule foldl_preserves [where P = "\<lambda>x. map fst (fst x) = map fst (fst st)"])
     (simp_all add: scan_link_def Let_def relax_edge_keys)

lemma scan_links_keys_eq:
  "scan_links act i ls (ds, pv, steps, b0) = (ds', pv', steps', b) \<Longrightarrow> map fst ds' = map fst ds"
  using scan_links_keys [of act i ls "(ds, pv, steps, b0)"] by simp

lemma bf_loop_keys: "map fst (fst (bf_loop act ls V i st)) = map fst (fst st)"
  by (rule bf_loop_rule
        [where J = "\<lambda>i x. map fst (fst x) = map fst (fst st)"
           and R = "\<lambda>x. map fst (fst x) = map fst (fst st)"])
     (auto dest: scan_links_keys_eq)

lemma alist_eqI:
  assumes "map fst xs = map fst ys" "distinct (map fst xs)"
    and "\<forall>k\<in>set (map fst xs). map_of xs k = map_of ys k"
  shows "xs = ys"
  using assms
proof (induction xs arbitrary: ys)
  case Nil
  then show ?case by simp
next
  case (Cons x xs)
  then obtain y ys' where ys: "ys = y # ys'" by (cases ys) auto
  with Cons.prems have f: "fst x = fst y" "map fst xs = map fst ys'" by simp_all
  from Cons.prems(3) ys f have "snd x = snd y" by (cases x; cases y) auto
  with f have xy: "x = y" by (simp add: prod_eq_iff)
  have "\<forall>k\<in>set (map fst xs). map_of xs k = map_of ys' k"
  proof
    fix k assume k: "k \<in> set (map fst xs)"
    with Cons.prems(2) have "k \<noteq> fst x" by (auto simp: image_iff)
    with Cons.prems(3) k ys xy show "map_of xs k = map_of ys' k"
      by (cases x) (auto split: if_splits)
  qed
  with Cons.IH [OF f(2)] Cons.prems(2) xy ys show ?case by simp
qed

lemma shortest_unique:
  assumes "shortest data s a" "shortest data s b" "map_of a k = Some x" "map_of b k = Some y"
  shows "x = y"
proof -
  from assms(1,3) have a: "x \<le> INFINITY"
    "x < INFINITY \<longrightarrow> (\<exists>p. path_ok data s p k \<and> path_weight p = x)"
    "\<forall>p. path_ok data s p k \<longrightarrow> x \<le> path_weight p"
    unfolding shortest_def by blast+
  from assms(2,4) have b: "y \<le> INFINITY"
    "y < INFINITY \<longrightarrow> (\<exists>p. path_ok data s p k \<and> path_weight p = y)"
    "\<forall>p. path_ok data s p k \<longrightarrow> y \<le> path_weight p"
    unfolding shortest_def by blast+
  have "x \<le> y"
  proof (cases "y < INFINITY")
    case True
    with b(2) a(3) show ?thesis by blast
  next
    case False
    with a(1) show ?thesis by simp
  qed
  moreover have "y \<le> x"
  proof (cases "x < INFINITY")
    case True
    with a(2) b(3) show ?thesis by blast
  next
    case False
    with b(1) show ?thesis by simp
  qed
  ultimately show ?thesis by simp
qed

lemma distinct_init_distances_keys: "distinct (map fst (init_distances ns s))"
proof -
  have "distinct (map fst (foldl (\<lambda>ds n. AList.update (node_id n)
                      (if node_id n = s \<and> node_active n then 0 else INFINITY) ds) acc ns))"
    if "distinct (map fst acc)" for acc :: dist_map
    using that by (induction ns arbitrary: acc) (simp_all add: distinct_update)
  from this [of "[]"] show ?thesis by (simp add: init_distances_def)
qed

lemma dijkstra_final_keys:
  "map fst (fst (snd (snd (dijkstra_final data s)))) = map fst (init_distances (nodes data) s)"
  unfolding dijkstra_final_def by (rule dijkstra_loop_keys)

lemma bf_final_keys:
  "map fst (fst (bf_final data s)) = map fst (init_distances (nodes data) s)"
  unfolding bf_final_def using bf_loop_keys by simp

section \<open>Final distances\<close>

lemma init_all_inf:
  assumes "map_of (init_distances ns s) s \<noteq> Some 0" "map_of (init_distances ns s) k = Some d"
  shows "d = INFINITY"
proof (rule ccontr)
  assume ne: "d \<noteq> INFINITY"
  from assms(2) obtain n where n: "find (\<lambda>n. node_id n = k) (rev ns) = Some n"
    "d = (if node_id n = s \<and> node_active n then 0 else INFINITY)"
    by (auto simp: map_of_init_distances split: option.splits)
  with ne have "node_id n = s" "d = 0" by (auto split: if_splits)
  moreover from n(1) have "node_id n = k" by (auto dest: find_Some_mem)
  ultimately show False using assms by simp
qed

lemma dijkstra_loop_all_inf:
  assumes "\<forall>k d. map_of ds k = Some d \<longrightarrow> d = INFINITY"
  shows "dijkstra_loop act ls (U, Vs, ds, pv, steps) = (U, Vs, ds, pv, steps)"
proof -
  obtain co m where sel: "select_min ds U = (co, m)" by (cases "select_min ds U")
  have "co = None"
  proof (cases co)
    case (Some c)
    with select_min_spec [OF sel] assms show ?thesis by auto
  qed simp
  with sel show ?thesis by (simp add: dijkstra_loop.simps)
qed

lemma scan_links_all_inf:
  assumes "\<forall>k d. map_of ds k = Some d \<longrightarrow> d = INFINITY"
  shows "scan_links act i ls (ds, pv, steps, ch) = (ds, pv, steps, ch)"
  unfolding scan_links_def
proof (rule foldl_preserves [where P = "\<lambda>st. st = (ds, pv, steps, ch)"])
  fix x :: link and st :: bf_state
  assume "st = (ds, pv, steps, ch)"
  moreover have "\<And>f t. \<not> relaxable ds x f t"
    using assms by (auto simp: relaxable_def split: option.splits)
  ultimately show "scan_link act i x st = (ds, pv, steps, ch)"
    by (simp add: scan_link_def Let_def relax_edge_unfold)
qed simp

lemma bf_loop_all_inf:
  assumes "\<forall>k d. map_of ds k = Some d \<longrightarrow> d = INFINITY"
  shows "fst (bf_loop act ls V i (ds, pv, steps, ch)) = ds"
  by (simp add: bf_loop.simps scan_links_all_inf [OF assms])

lemma final_distances_equal:
  assumes w: "\<forall>l\<in>set (links data). 0 < weight l"
  shows "distances (last (runAlgorithm DIJKSTRA data s))
           = distances (last (runAlgorithm BELLMAN_FORD data s))"
proof (cases "s \<in> active_ids data")
  case False
  then show ?thesis by (simp add: inactive_last)
next
  case act: True
  let ?ds0 = "init_distances (nodes data) s"
  let ?D = "fst (snd (snd (dijkstra_final data s)))" and ?B = "fst (bf_final data s)"
  have last: "distances (last (runAlgorithm DIJKSTRA data s)) = ?D"
    "distances (last (runAlgorithm BELLMAN_FORD data s)) = ?B"
    using act by (simp_all add: runAlgorithm_def runDijkstra_last runBellmanFord_last)
  show ?thesis
  proof (cases "map_of ?ds0 s = Some 0")
    case False
    then have inf: "\<forall>k d. map_of ?ds0 k = Some d \<longrightarrow> d = INFINITY"
      using init_all_inf by blast
    have "?D = ?ds0" unfolding dijkstra_final_def by (simp add: dijkstra_loop_all_inf [OF inf])
    moreover have "?B = ?ds0" unfolding bf_final_def by (rule bf_loop_all_inf [OF inf])
    ultimately show ?thesis using last by simp
  next
    case True
    have w': "\<forall>l\<in>set (links data). link_active l \<longrightarrow> 0 \<le> weight l" using w by fastforce
    have sD: "shortest data s ?D" by (rule dijkstra_final_shortest [OF act True w'])
    have sB: "shortest data s ?B" by (rule bf_final_shortest [OF act True w'])
    have kD: "map fst ?D = map fst ?ds0" by (rule dijkstra_final_keys)
    have kB: "map fst ?B = map fst ?ds0" by (rule bf_final_keys)
    have "?D = ?B"
    proof (rule alist_eqI)
      show "map fst ?D = map fst ?B" using kD kB by simp
      show "distinct (map fst ?D)" using kD distinct_init_distances_keys by simp
      show "\<forall>k\<in>set (map fst ?D). map_of ?D k = map_of ?B k"
      proof
        fix k assume k: "k \<in> set (map fst ?D)"
        then obtain x where x: "map_of ?D k = Some x"
          by (metis map_of_eq_None_iff not_Some_eq set_map)
        from k kD kB have "k \<in> set (map fst ?B)" by simp
        then obtain y where y: "map_of ?B k = Some y"
          by (metis map_of_eq_None_iff not_Some_eq set_map)
        from shortest_unique [OF sD sB x y] x y show "map_of ?D k = map_of ?B k" by simp
      qed
    qed
    with last show ?thesis by simp
  qed
qed






text \<open>
  C3: for every topology whose link weights are strictly positive and every start node,
  the final steps of the two variants carry the same \<open>distances\<close> dictionary, and so mark
  the same nodes with the sentinel.
\<close>

theorem dijkstra_bellman_ford_agree:
  assumes "\<forall>l\<in>set (links data). 0 < weight l"
  shows "distances (last (runAlgorithm DIJKSTRA data startNodeId))
           = distances (last (runAlgorithm BELLMAN_FORD data startNodeId))
         \<and> {k. map_of (distances (last (runAlgorithm DIJKSTRA data startNodeId))) k = Some INFINITY}
           = {k. map_of (distances (last (runAlgorithm BELLMAN_FORD data startNodeId))) k
                   = Some INFINITY}"
  using final_distances_equal [OF assms] by simp

theorem dijkstra_bellman_ford_agree_witness:
  "list_all (\<lambda>l. 0 < weight l) (links INITIAL_GRAPH)
   \<and> distances (last (runAlgorithm DIJKSTRA INITIAL_GRAPH ''A''))
     = distances (last (runAlgorithm BELLMAN_FORD INITIAL_GRAPH ''A''))"
proof -
  have h: "list_all (\<lambda>l. 0 < weight l) (links INITIAL_GRAPH)" by code_simp
  then have "\<forall>l\<in>set (links INITIAL_GRAPH). 0 < weight l" by (simp add: list_all_iff)
  from dijkstra_bellman_ford_agree [OF this, of "''A''"] h show ?thesis by blast
qed

section \<open>The predecessor tree\<close>












section \<open>Reconstructed paths\<close>









lemma path_cost_snoc [simp]: "path_cost data (ids @ [i]) = path_cost data ids + link_weight data i"
  by (simp add: path_cost_def)




section \<open>Packet forwarding\<close>







lemma updatePackets_moving:
  assumes "updatePackets algorithm graphData delta prevPackets = Some qs"
  shows "list_all (\<lambda>q. status q = moving) qs"
  using assms by (auto simp: updatePackets_def list_all_iff split: if_splits)

section \<open>Reconstruction and forwarding on a finished run\<close>











end
